theory Spec2Isabelle
  imports Complex_Main "HOL-Library.Multiset"
begin

section \<open>Points and paths\<close>

text \<open>
  A point is a pair of coordinates \<open>(x, y)\<close>; a path is the ordered sequence of its points.
  The filters work on numpy arrays whose entries are integers after tracing and fractions
  after smoothing; both are embedded in the reals, and \<open>np.sqrt\<close> is the real square root.
\<close>

type_synonym point = "real \<times> real"
type_synonym path = "point list"

text \<open>
  The expression \<open>np.sqrt((p[0] - q[0])**2 + (p[1] - q[1])**2)\<close>, which every filter
  and the merger write out inline.
\<close>

definition euclid :: "point \<Rightarrow> point \<Rightarrow> real" where
  "euclid p q = sqrt ((fst p - fst q)\<^sup>2 + (snd p - snd q)\<^sup>2)"

section \<open>Distance decimation (\<open>simplify_path_points\<close>, clean\_smooth.py)\<close>

text \<open>
  The loop \<open>for i in range(1, len(points))\<close>: \<open>simplified\<close> is the list built so far
  (never empty), the third argument holds the points still to visit. A point is appended
  when its distance to \<open>simplified[-1]\<close> is at least the tolerance.
\<close>

fun decimate :: "real \<Rightarrow> path \<Rightarrow> path \<Rightarrow> path" where
  "decimate tolerance simplified [] = simplified"
| "decimate tolerance simplified (p # ps) =
     (if euclid p (last simplified) \<ge> tolerance
      then decimate tolerance (simplified @ [p]) ps
      else decimate tolerance simplified ps)"

definition simplify_path_points :: "path \<Rightarrow> real \<Rightarrow> path" where
  "simplify_path_points points tolerance =
     (if length points < 3 then points
      else decimate tolerance [points ! 0] (drop 1 points))"


section \<open>Chaikin corner cutting (\<open>chaikin_smooth\<close>, clean\_smooth.py)\<close>

text \<open>
  The loop of \<open>chaikin_step\<close> over the edges \<open>(pts[i], pts[i+1])\<close>: each edge contributes
  the points at one quarter and three quarters.
\<close>

fun chaikin_edges :: "path \<Rightarrow> path" where
  "chaikin_edges (p0 # p1 # ps) =
     (0.75 * fst p0 + 0.25 * fst p1, 0.75 * snd p0 + 0.25 * snd p1) #
     (0.25 * fst p0 + 0.75 * fst p1, 0.25 * snd p0 + 0.75 * snd p1) #
     chaikin_edges (p1 # ps)"
| "chaikin_edges ps = []"

text \<open>
  \<open>new_pts = [pts[0]]\<close>, then the edge points, then \<open>pts[-1]\<close>. The function is only
  reached with at least four points.
\<close>

definition chaikin_step :: "path \<Rightarrow> path" where
  "chaikin_step pts = hd pts # chaikin_edges pts @ [last pts]"

definition chaikin_smooth :: "path \<Rightarrow> int \<Rightarrow> path" where
  "chaikin_smooth points iterations =
     (if length points < 4 \<or> iterations \<le> 0 then points
      else (chaikin_step ^^ nat iterations) points)"

text \<open>The points appended after \<open>l\<close> was kept last: the loop without its accumulator.\<close>

fun kept_after :: "real \<Rightarrow> point \<Rightarrow> path \<Rightarrow> path" where
  "kept_after tolerance l [] = []"
| "kept_after tolerance l (p # ps) =
     (if euclid p l \<ge> tolerance then p # kept_after tolerance p ps
      else kept_after tolerance l ps)"

section \<open>Component tracer (\<open>remove_noise_from_skeleton\<close>, \<open>trace_all_contours\<close>)\<close>

text \<open>
  Pixel coordinates are integers \<open>(x, y)\<close>. The mask is a two-dimensional numpy array:
  its \<open>shape\<close> is \<open>(height, width)\<close> and \<open>value_at img y x\<close> is the entry \<open>img[y, x]\<close>,
  which the tracer reads only for \<open>0 \<le> x < width\<close> and \<open>0 \<le> y < height\<close>.
\<close>

type_synonym pixel = "int \<times> int"

record image =
  shape :: "nat \<times> nat"
  value_at :: "int \<Rightarrow> int \<Rightarrow> nat"

text \<open>
  The eight positions \<open>(cx + dx, cy + dy)\<close> in the order of the two nested loops
  \<open>for dy in [-1, 0, 1]: for dx in [-1, 0, 1]\<close>, the centre skipped.
\<close>

definition neighbours :: "pixel \<Rightarrow> pixel list" where
  "neighbours c =
     [(fst c + dx, snd c + dy). dy \<leftarrow> [-1, 0, 1], dx \<leftarrow> [-1, 0, 1], \<not> (dx = 0 \<and> dy = 0)]"

text \<open>
  The body of the neighbour loop. The \<open>visited\<close> array is the set of the coordinates
  it marks; the stack is a list whose head is its top, so \<open>stack.append\<close> conses and
  \<open>stack.pop()\<close> takes the head.
\<close>

definition visit :: "image \<Rightarrow> pixel \<Rightarrow> pixel set \<times> pixel list \<Rightarrow> pixel set \<times> pixel list" where
  "visit skeleton n s =
     (case s of (visited, stack) \<Rightarrow>
        if 0 \<le> fst n \<and> fst n < int (snd (shape skeleton)) \<and>
           0 \<le> snd n \<and> snd n < int (fst (shape skeleton))
        then if value_at skeleton (snd n) (fst n) > 0 \<and> n \<notin> visited
             then (insert n visited, n # stack)
             else (visited, stack)
        else (visited, stack))"

text \<open>The foreground pixels of a mask: the nonzero entries inside its bounds.\<close>

definition foreground :: "image \<Rightarrow> pixel set" where
  "foreground skeleton =
     {(x, y). 0 \<le> x \<and> x < int (snd (shape skeleton)) \<and>
              0 \<le> y \<and> y < int (fst (shape skeleton)) \<and> value_at skeleton y x > 0}"

lemma finite_foreground: "finite (foreground skeleton)"
proof -
  have "foreground skeleton \<subseteq> {0..<int (snd (shape skeleton))} \<times> {0..<int (fst (shape skeleton))}"
    by (auto simp: foreground_def)
  then show ?thesis by (rule finite_subset) simp
qed

lemma visit_cases:
  "visit skeleton n (visited, stack) = (visited, stack) \<and> (n \<in> visited \<or> n \<notin> foreground skeleton) \<or>
   visit skeleton n (visited, stack) = (insert n visited, n # stack) \<and> n \<notin> visited \<and> n \<in> foreground skeleton"
  by (cases n) (auto simp: visit_def foreground_def)

definition weight :: "image \<Rightarrow> pixel set \<times> pixel list \<Rightarrow> nat" where
  "weight skeleton s = 2 * card (foreground skeleton - fst s) + length (snd s)"

lemma weight_visit: "weight skeleton (visit skeleton n s) \<le> weight skeleton s"
proof (cases s)
  case (Pair visited stack)
  from visit_cases [of skeleton n visited stack] show ?thesis
  proof
    assume "visit skeleton n (visited, stack) = (visited, stack) \<and> (n \<in> visited \<or> n \<notin> foreground skeleton)"
    with Pair show ?thesis by simp
  next
    assume a: "visit skeleton n (visited, stack) = (insert n visited, n # stack) \<and> n \<notin> visited \<and> n \<in> foreground skeleton"
    then have "n \<in> foreground skeleton - visited" by simp
    moreover have "foreground skeleton - insert n visited = (foreground skeleton - visited) - {n}" by auto
    moreover have "finite (foreground skeleton - visited)" using finite_foreground by simp
    ultimately have "card (foreground skeleton - insert n visited) < card (foreground skeleton - visited)"
      by (metis card_Diff1_less)
    with a Pair show ?thesis by (simp add: weight_def)
  qed
qed

lemma weight_fold_visit: "weight skeleton (fold (visit skeleton) ns s) \<le> weight skeleton s"
proof (induction ns arbitrary: s)
  case Nil
  show ?case by simp
next
  case (Cons n ns)
  have "weight skeleton (fold (visit skeleton) ns (visit skeleton n s)) \<le> weight skeleton (visit skeleton n s)"
    by (rule Cons.IH)
  also have "\<dots> \<le> weight skeleton s" by (rule weight_visit)
  finally show ?case by simp
qed

text \<open>
  The loop \<open>while stack\<close>: pop a pixel, append it to \<open>points\<close>, push every foreground
  neighbour not yet visited and mark it. Each push marks a new foreground pixel, so the
  loop ends.
\<close>

function flood :: "image \<Rightarrow> pixel set \<Rightarrow> pixel list \<Rightarrow> pixel list \<Rightarrow> pixel set \<times> pixel list" where
  "flood skeleton visited [] points = (visited, points)"
| "flood skeleton visited (c # stack) points =
     (case fold (visit skeleton) (neighbours c) (visited, stack) of
        (visited', stack') \<Rightarrow> flood skeleton visited' stack' (points @ [c]))"
  by pat_completeness auto
termination
proof (relation "measure (\<lambda>(skeleton, visited, stack, points). weight skeleton (visited, stack))", goal_cases)
  case 1
  show ?case by simp
next
  case (2 skeleton visited c stack points visited' stack')
  have "weight skeleton (fold (visit skeleton) (neighbours c) (visited, stack)) \<le> weight skeleton (visited, stack)"
    by (rule weight_fold_visit)
  with 2 [symmetric] have "weight skeleton (visited', stack') \<le> weight skeleton (visited, stack)" by simp
  then show ?case by (simp add: weight_def)
qed

text \<open>The row-major scan \<open>for y in range(height): for x in range(width)\<close>.\<close>

definition scan_order :: "image \<Rightarrow> pixel list" where
  "scan_order skeleton =
     [(int x, int y). y \<leftarrow> [0..<fst (shape skeleton)], x \<leftarrow> [0..<snd (shape skeleton)]]"

text \<open>
  The body of the scan: an unvisited foreground pixel starts a flood fill, and the
  component is kept when its point count passes the length test \<open>keep\<close>.
\<close>

definition trace_from ::
  "(nat \<Rightarrow> bool) \<Rightarrow> image \<Rightarrow> pixel \<Rightarrow> pixel set \<times> pixel list list \<Rightarrow> pixel set \<times> pixel list list" where
  "trace_from keep skeleton c s =
     (case s of (visited, contours) \<Rightarrow>
        if value_at skeleton (snd c) (fst c) = 0 \<or> c \<in> visited then (visited, contours)
        else (case flood skeleton (insert c visited) [c] [] of
                (visited', points) \<Rightarrow>
                  (visited', if keep (length points) then contours @ [points] else contours)))"

text \<open>
  The tracers of the repository are this one scan and differ in the length test only:
  \<open>len(points) >= min_length\<close> in \<open>remove_noise_from_skeleton\<close> and \<open>len(points) > 5\<close> in
  \<open>trace_all_contours\<close> and \<open>skeleton_to_contours\<close>.
\<close>

definition trace_components :: "(nat \<Rightarrow> bool) \<Rightarrow> image \<Rightarrow> pixel list list" where
  "trace_components keep skeleton =
     snd (fold (trace_from keep skeleton) (scan_order skeleton) ({}, []))"

definition remove_noise_from_skeleton :: "image \<Rightarrow> int \<Rightarrow> pixel list list" where
  "remove_noise_from_skeleton skeleton min_length =
     trace_components (\<lambda>n. int n \<ge> min_length) skeleton"

definition trace_all_contours :: "image \<Rightarrow> pixel list list" where
  "trace_all_contours skeleton = trace_components (\<lambda>n. n > 5) skeleton"

text \<open>Two pixels are 8-adjacent when their Chebyshev distance is 1.\<close>

definition adjacent :: "pixel \<Rightarrow> pixel \<Rightarrow> bool" where
  "adjacent p q = (max \<bar>fst p - fst q\<bar> \<bar>snd p - snd q\<bar> = 1)"

text \<open>Every point of a path but the first is 8-adjacent to a point before it.\<close>

definition linked :: "pixel list \<Rightarrow> bool" where
  "linked pts = (\<forall>k<length pts. 0 < k \<longrightarrow> (\<exists>j<k. adjacent (pts ! j) (pts ! k)))"

definition in_bounds :: "image \<Rightarrow> pixel \<Rightarrow> bool" where
  "in_bounds skeleton c =
     (0 \<le> fst c \<and> fst c < int (snd (shape skeleton)) \<and>
      0 \<le> snd c \<and> snd c < int (fst (shape skeleton)))"

text \<open>The invariant of the scan, on the visited set and the contours collected so far.\<close>

definition traced_ok :: "(nat \<Rightarrow> bool) \<Rightarrow> image \<Rightarrow> pixel set \<times> pixel list list \<Rightarrow> bool" where
  "traced_ok keep skeleton s =
     (fst s \<subseteq> foreground skeleton \<and> distinct (concat (snd s)) \<and>
      set (concat (snd s)) \<subseteq> fst s \<and> [] \<notin> set (snd s) \<and>
      (\<forall>p\<in>set (snd s). linked p) \<and>
      ((\<forall>n>0. keep n) \<longrightarrow> set (concat (snd s)) = fst s))"

text \<open>
  Three masks: a stroke of 7 pixels shaped like a caret whose apex is found first by the
  scan, two isolated pixels, and a 100 by 100 mask without foreground.
\<close>

definition caret_mask :: image where
  "caret_mask =
     \<lparr>shape = (4, 7),
      value_at = (\<lambda>y x. if (x, y) \<in> {(3,0), (2,1), (4,1), (1,2), (5,2), (0,3), (6,3)}
                          then 255 else 0)\<rparr>"

definition two_dots :: image where
  "two_dots = \<lparr>shape = (1, 3), value_at = (\<lambda>y x. if x = 0 \<or> x = 2 then 255 else 0)\<rparr>"

definition blank :: image where
  "blank = \<lparr>shape = (100, 100), value_at = (\<lambda>y x. 0)\<rparr>"

section \<open>Endpoint pairing (\<open>find_close_endpoints\<close>, continuous\_no\_gap.py)\<close>

text \<open>
  The body of the inner loop \<open>for j in range(i + 1, n)\<close>: the state is
  \<open>(min_dist, closest)\<close>, with \<open>closest = -1\<close> while no candidate has been found.
\<close>

definition consider_endpoint ::
  "path \<Rightarrow> nat set \<Rightarrow> nat \<Rightarrow> nat \<Rightarrow> real \<times> int \<Rightarrow> real \<times> int" where
  "consider_endpoint endpoints used i j s =
     (case s of (min_dist, closest) \<Rightarrow>
        if j \<in> used then (min_dist, closest)
        else if euclid (endpoints ! i) (endpoints ! j) < min_dist
             then (euclid (endpoints ! i) (endpoints ! j), int j)
             else (min_dist, closest))"

text \<open>
  The body of the outer loop \<open>for i in range(n)\<close>: the state is the list of connections
  and the set \<open>used\<close> of indices already paired.
\<close>

definition pair_endpoint ::
  "path \<Rightarrow> real \<Rightarrow> nat \<Rightarrow> (point \<times> point) list \<times> nat set \<Rightarrow> (point \<times> point) list \<times> nat set" where
  "pair_endpoint endpoints max_dist i s =
     (case s of (connections, used) \<Rightarrow>
        if i \<in> used then (connections, used)
        else (case fold (consider_endpoint endpoints used i) [i + 1..<length endpoints] (max_dist, - 1) of
                (min_dist, closest) \<Rightarrow>
                  if closest \<noteq> - 1
                  then (connections @ [(endpoints ! i, endpoints ! nat closest)],
                        insert (nat closest) (insert i used))
                  else (connections, used)))"

definition find_close_endpoints :: "path \<Rightarrow> real \<Rightarrow> (point \<times> point) list" where
  "find_close_endpoints endpoints max_dist =
     (if length endpoints < 2 then []
      else fst (fold (pair_endpoint endpoints max_dist) [0..<length endpoints] ([], {})))"

text \<open>The invariants of the inner and of the outer loop, the latter on the index pairs chosen.\<close>

definition closest_ok :: "path \<Rightarrow> nat set \<Rightarrow> real \<Rightarrow> nat \<Rightarrow> real \<times> int \<Rightarrow> bool" where
  "closest_ok endpoints used max_dist i s =
     (fst s \<le> max_dist \<and>
      (snd s = - 1 \<or>
       (0 \<le> snd s \<and> i < nat (snd s) \<and> nat (snd s) < length endpoints \<and> nat (snd s) \<notin> used \<and>
        euclid (endpoints ! i) (endpoints ! nat (snd s)) < max_dist)))"

definition flat :: "(nat \<times> nat) list \<Rightarrow> nat list" where
  "flat idxs = concat (map (\<lambda>(i, j). [i, j]) idxs)"

definition pairs_ok ::
  "path \<Rightarrow> real \<Rightarrow> (point \<times> point) list \<times> nat set \<Rightarrow> (nat \<times> nat) list \<Rightarrow> bool" where
  "pairs_ok endpoints max_dist s idxs =
     (fst s = map (\<lambda>(i, j). (endpoints ! i, endpoints ! j)) idxs \<and>
      snd s = set (flat idxs) \<and> distinct (flat idxs) \<and>
      (\<forall>(i, j)\<in>set idxs. i < j \<and> j < length endpoints \<and>
          euclid (endpoints ! i) (endpoints ! j) < max_dist))"

section \<open>Vector serializer (\<open>output_ai\<close>, \<open>output_svg\<close>, clean\_smooth.py)\<close>

text \<open>
  The serializers build a text. Each line of the PostScript text is a value of \<open>ai_line\<close>,
  in the order in which it is appended; the numbers that the f-strings format are kept as
  numbers. The preamble carries what is interpolated into it: the output path (for the
  title), width, height and the number of paths.
\<close>

datatype ai_line =
    Ai_preamble string int int nat
  | Path_comment nat nat
  | Newpath
  | Moveto real real
  | Lineto real real
  | Stroke
  | Showpage
  | End_document

text \<open>
  The body of the loop \<open>for i, path in enumerate(paths)\<close> of \<open>output_ai\<close>: a path with
  fewer than two points is skipped; otherwise a comment, \<open>newpath\<close>, a \<open>moveto\<close> for
  \<open>points[0]\<close>, a \<open>lineto\<close> for \<open>points[j]\<close>, \<open>j\<close> from 1, and \<open>stroke\<close>.
\<close>

definition ai_path :: "int \<Rightarrow> nat \<times> path \<Rightarrow> ai_line list" where
  "ai_path height ip =
     (case ip of (i, path) \<Rightarrow>
        if length path < 2 then []
        else [Path_comment (i + 1) (length path), Newpath,
              Moveto (fst (path ! 0)) (real_of_int height - snd (path ! 0))] @
             map (\<lambda>j. Lineto (fst (path ! j)) (real_of_int height - snd (path ! j)))
               [1..<length path] @
             [Stroke])"

definition output_ai :: "path list \<Rightarrow> string \<Rightarrow> int \<Rightarrow> int \<Rightarrow> ai_line list" where
  "output_ai paths output_path width height =
     [Ai_preamble output_path width height (length paths)] @
     concat (map (ai_path height) (enumerate 0 paths)) @
     [Showpage, End_document]"

text \<open>
  The SVG text: each \<open>path\<close> element has the index of its path as id and the commands of
  its \<open>d\<close> attribute. \<open>output_svg\<close> returns the total number of points.
\<close>

datatype svg_command = M real real | L real real

datatype svg_line =
    Svg_preamble int int nat nat
  | Path_element nat "svg_command list"
  | Svg_close

definition svg_path :: "nat \<times> path \<Rightarrow> svg_line list" where
  "svg_path ip =
     (case ip of (i, path) \<Rightarrow>
        if length path < 2 then []
        else [Path_element i
               ([M (fst (path ! 0)) (snd (path ! 0))] @
                map (\<lambda>j. L (fst (path ! j)) (snd (path ! j))) [1..<length path])])"

definition output_svg :: "path list \<Rightarrow> string \<Rightarrow> int \<Rightarrow> int \<Rightarrow> svg_line list \<times> nat" where
  "output_svg paths output_path width height =
     (let total_points = sum_list (map length paths)
      in ([Svg_preamble width height (length paths) total_points] @
          concat (map svg_path (enumerate 0 paths)) @
          [Svg_close],
          total_points))"

text \<open>The geometry commands of the two outputs, in order of emission.\<close>

datatype command = Move_to real real | Line_to real real

fun ai_commands :: "ai_line list \<Rightarrow> command list" where
  "ai_commands [] = []"
| "ai_commands (Moveto x y # ls) = Move_to x y # ai_commands ls"
| "ai_commands (Lineto x y # ls) = Line_to x y # ai_commands ls"
| "ai_commands (l # ls) = ai_commands ls"

fun as_command :: "svg_command \<Rightarrow> command" where
  "as_command (M x y) = Move_to x y"
| "as_command (L x y) = Line_to x y"

fun svg_commands :: "svg_line list \<Rightarrow> command list" where
  "svg_commands [] = []"
| "svg_commands (Path_element i d # ls) = map as_command d @ svg_commands ls"
| "svg_commands (l # ls) = svg_commands ls"

text \<open>
  The commands of one path as the specification words them: nothing for a path with fewer
  than two points, otherwise a move to the first point and a line to each later point, the
  vertical coordinate passed through \<open>vertical\<close>.
\<close>

definition path_commands :: "(real \<Rightarrow> real) \<Rightarrow> path \<Rightarrow> command list" where
  "path_commands vertical path =
     (if length path < 2 then []
      else Move_to (fst (hd path)) (vertical (snd (hd path))) #
           map (\<lambda>p. Line_to (fst p) (vertical (snd p))) (tl path))"

section \<open>Errors\<close>

text \<open>
  The exceptions that the modelled functions raise as values: an index into an empty
  array and a negative sample count passed to \<open>np.linspace\<close>.
\<close>

datatype error = IndexError | ValueError

text \<open>A loop whose body may raise: the first exception ends it.\<close>

fun fold_result :: "('a \<Rightarrow> 's \<Rightarrow> error + 's) \<Rightarrow> 'a list \<Rightarrow> 's \<Rightarrow> error + 's" where
  "fold_result f [] s = Inr s"
| "fold_result f (x # xs) s = (case f x s of Inl e \<Rightarrow> Inl e | Inr s' \<Rightarrow> fold_result f xs s')"

section \<open>Path merger (\<open>merge_adjacent_paths\<close>, final\_continuous.py; \<open>connect_contours\<close>, optimized\_lines.py)\<close>

text \<open>
  The body of the inner loop \<open>for j in range(i + 1, len(paths))\<close>, on the state
  \<open>(current, used, changed)\<close>. The distances read \<open>current[-1]\<close>, \<open>other[0]\<close>,
  \<open>current[0]\<close> and \<open>other[-1]\<close>, which raise on an empty array. \<open>np.vstack\<close> of two
  paths is their concatenation.
\<close>

definition join_other ::
  "real \<Rightarrow> path list \<Rightarrow> nat \<Rightarrow> path \<times> bool list \<times> bool \<Rightarrow> error + path \<times> bool list \<times> bool" where
  "join_other max_gap contours j s =
     (case s of (current, used, changed) \<Rightarrow>
        if used ! j then Inr (current, used, changed)
        else let other = contours ! j in
          if current = [] \<or> other = [] then Inl IndexError
          else let d1 = euclid (last current) (hd other);
                   d2 = euclid (hd current) (last other)
               in if d1 < max_gap \<or> d2 < max_gap
                  then Inr (if d1 < d2 then current @ other else other @ current,
                            used[j := True], True)
                  else Inr (current, used, changed))"

text \<open>
  The body of the outer loop \<open>for i in range(len(paths))\<close>, on the state
  \<open>(result, used, changed)\<close>.
\<close>

definition grow_from ::
  "real \<Rightarrow> path list \<Rightarrow> nat \<Rightarrow> path list \<times> bool list \<times> bool \<Rightarrow>
   error + path list \<times> bool list \<times> bool" where
  "grow_from max_gap contours i s =
     (case s of (result, used, changed) \<Rightarrow>
        if used ! i then Inr (result, used, changed)
        else (case fold_result (join_other max_gap contours) [i + 1..<length contours]
                     (contours ! i, used[i := True], changed) of
                Inl e \<Rightarrow> Inl e
              | Inr (current, used', changed') \<Rightarrow> Inr (result @ [current], used', changed')))"

text \<open>One pass over all paths; it returns the merged paths and whether any two were joined.\<close>

definition merge_round :: "real \<Rightarrow> path list \<Rightarrow> error + path list \<times> bool" where
  "merge_round max_gap contours =
     (case fold_result (grow_from max_gap contours) [0..<length contours]
             ([], replicate (length contours) False, False) of
        Inl e \<Rightarrow> Inl e
      | Inr (result, used, changed) \<Rightarrow> Inr (result, changed))"

text \<open>\<open>merge_adjacent_paths\<close> is a single pass (it has no \<open>changed\<close> flag of its own).\<close>

definition merge_adjacent_paths :: "path list \<Rightarrow> real \<Rightarrow> error + path list" where
  "merge_adjacent_paths paths max_gap =
     (if length paths \<le> 1 then Inr paths
      else (case merge_round max_gap paths of
              Inl e \<Rightarrow> Inl e
            | Inr (merged, changed) \<Rightarrow> Inr merged))"

text \<open>
  The loop \<open>while changed and iterations < max_iterations\<close> of \<open>connect_contours\<close>, which
  repeats the pass on its own result.
\<close>

function connect_loop ::
  "real \<Rightarrow> nat \<Rightarrow> path list \<Rightarrow> bool \<Rightarrow> nat \<Rightarrow> error + path list" where
  "connect_loop max_gap max_iterations contours changed iterations =
     (if changed \<and> iterations < max_iterations
      then (case merge_round max_gap contours of
              Inl e \<Rightarrow> Inl e
            | Inr (result, changed') \<Rightarrow>
                connect_loop max_gap max_iterations result changed' (iterations + 1))
      else Inr contours)"
  by pat_completeness auto
termination
  by (relation "measure (\<lambda>(max_gap, max_iterations, contours, changed, iterations).
        max_iterations - iterations)") auto

definition connect_contours :: "path list \<Rightarrow> real \<Rightarrow> error + path list" where
  "connect_contours contours max_gap =
     (if length contours < 2 then Inr contours
      else connect_loop max_gap (length contours) contours True 0)"

text \<open>
  \<open>regrouped paths out\<close>: the paths \<open>out\<close> are concatenations of whole paths of \<open>paths\<close>.
  There are groups of indices into \<open>paths\<close>, none empty, in which every index occurs
  exactly once, and each output path is the concatenation of the input paths of one
  group, each unchanged.
\<close>

definition regrouped :: "path list \<Rightarrow> path list \<Rightarrow> bool" where
  "regrouped paths out =
     (\<exists>groups. mset (concat groups) = mset [0..<length paths] \<and> [] \<notin> set groups \<and>
        out = map (\<lambda>grp. concat (map ((!) paths) grp)) groups)"

text \<open>
  The invariants of a pass: \<open>joined\<close> is the path of a group of indices, \<open>flags_ok\<close> ties
  the \<open>used\<close> flags to the indices grouped so far, \<open>round_ok\<close> is the invariant of the
  outer loop.
\<close>

definition joined :: "path list \<Rightarrow> nat list \<Rightarrow> path" where
  "joined contours grp = concat (map ((!) contours) grp)"

definition flags_ok :: "nat \<Rightarrow> bool list \<Rightarrow> nat list list \<Rightarrow> nat list \<Rightarrow> bool" where
  "flags_ok n used groups grp =
     (length used = n \<and> distinct (concat groups @ grp) \<and>
      (\<forall>k<n. used ! k \<longleftrightarrow> k \<in> set (concat groups) \<union> set grp) \<and>
      set (concat groups) \<union> set grp \<subseteq> {0..<n})"

definition round_ok :: "path list \<Rightarrow> path list \<times> bool list \<times> bool \<Rightarrow> nat list list \<Rightarrow> bool" where
  "round_ok contours s groups =
     (fst s = map (joined contours) groups \<and> [] \<notin> set groups \<and>
      flags_ok (length contours) (fst (snd s)) groups [])"

text \<open>
  \<open>apart max_gap paths\<close>: from the tail of every path to the head of every other path
  it is at least \<open>max_gap\<close>. \<open>used_below n k\<close> are the \<open>used\<close> flags of \<open>n\<close> paths when
  exactly the first \<open>k\<close> are marked.
\<close>

definition apart :: "real \<Rightarrow> path list \<Rightarrow> bool" where
  "apart max_gap paths =
     (\<forall>i<length paths. \<forall>j<length paths. i \<noteq> j \<longrightarrow>
        max_gap \<le> euclid (last (paths ! i)) (hd (paths ! j)))"

definition used_below :: "nat \<Rightarrow> nat \<Rightarrow> bool list" where
  "used_below n k = map (\<lambda>m. m < k) [0..<n]"

section \<open>Douglas-Peucker simplification (\<open>ramer_douglas_pecker\<close>, final\_smooth.py; \<open>optimize_contour\<close>, optimized\_lines.py)\<close>

text \<open>
  numpy computes on float64 arrays and rounds. The numpy calls of \<open>perpendicular_distance\<close>
  are therefore the fields of a record, and what is proved of the function holds for
  whatever values these calls return: \<open>np.allclose\<close>, \<open>np.linalg.norm\<close>, \<open>np.dot\<close>, and
  the array operators \<open>-\<close>, \<open>+\<close>, \<open>*\<close> (a number times an array) and \<open>/\<close> (an array
  divided by a number).
\<close>

record numpy =
  np_allclose :: "point \<Rightarrow> point \<Rightarrow> bool"
  np_norm :: "point \<Rightarrow> real"
  np_dot :: "point \<Rightarrow> point \<Rightarrow> real"
  np_sub :: "point \<Rightarrow> point \<Rightarrow> point"
  np_add :: "point \<Rightarrow> point \<Rightarrow> point"
  np_mul :: "real \<Rightarrow> point \<Rightarrow> point"
  np_div :: "point \<Rightarrow> real \<Rightarrow> point"

text \<open>
  The same calls without rounding. float64 returns these values wherever the exact result
  of every operation is a float64 number, as it is on the points \<open>(0,0)\<close>, \<open>(2,2)\<close>,
  \<open>(4,0)\<close>: the chord is horizontal and of length 4, and every intermediate value is a
  small integer.
\<close>

definition exact :: numpy where
  "exact =
     \<lparr>np_allclose = (\<lambda>a b. \<bar>fst a - fst b\<bar> \<le> 1 / 10 ^ 8 + 1 / 10 ^ 5 * \<bar>fst b\<bar> \<and>
                            \<bar>snd a - snd b\<bar> \<le> 1 / 10 ^ 8 + 1 / 10 ^ 5 * \<bar>snd b\<bar>),
      np_norm = (\<lambda>v. sqrt ((fst v)\<^sup>2 + (snd v)\<^sup>2)),
      np_dot = (\<lambda>u v. fst u * fst v + snd u * snd v),
      np_sub = (\<lambda>u v. (fst u - fst v, snd u - snd v)),
      np_add = (\<lambda>u v. (fst u + fst v, snd u + snd v)),
      np_mul = (\<lambda>k v. (k * fst v, k * snd v)),
      np_div = (\<lambda>v k. (fst v / k, snd v / k))\<rparr>"

text \<open>
  \<open>perpendicular_distance\<close> of \<open>ramer_douglas_pecker\<close>: the distance to the nearest point
  of the segment. \<open>np.clip(proj_length, 0, line_len)\<close> returns one of its arguments.
\<close>

definition perpendicular_distance :: "numpy \<Rightarrow> point \<Rightarrow> point \<Rightarrow> point \<Rightarrow> real" where
  "perpendicular_distance np p line_start line_end =
     (if np_allclose np line_start line_end
      then np_norm np (np_sub np p line_start)
      else let line_vec = np_sub np line_end line_start;
               point_vec = np_sub np p line_start;
               line_len = np_norm np line_vec;
               line_unitvec = np_div np line_vec line_len;
               proj_length = np_dot np point_vec line_unitvec;
               proj_length = min (max proj_length 0) line_len;
               nearest = np_add np line_start (np_mul np proj_length line_unitvec)
           in np_norm np (np_sub np p nearest))"

text \<open>
  The loop \<open>for i in range(start + 1, end)\<close> that both simplifiers run, from
  \<open>max_dist = 0\<close> and \<open>max_idx = start\<close>: a point replaces the farthest one so far when
  its distance \<open>d i\<close> is strictly greater.
\<close>

definition farther :: "(nat \<Rightarrow> real) \<Rightarrow> nat \<Rightarrow> real \<times> nat \<Rightarrow> real \<times> nat" where
  "farther d i s =
     (case s of (max_dist, max_idx) \<Rightarrow> if d i > max_dist then (d i, i) else (max_dist, max_idx))"

definition farthest :: "(nat \<Rightarrow> real) \<Rightarrow> nat \<Rightarrow> nat \<Rightarrow> real \<times> nat" where
  "farthest d start end = fold (farther d) [start + 1..<end] (0, start)"

text \<open>
  The recursive \<open>rdp\<close>. Its argument \<open>depth\<close> is the number of nested calls that Python's
  recursion limit still allows, and \<open>None\<close> is the RecursionError raised beyond it: with a
  negative \<open>eps\<close> and no point off the chord, \<open>max_idx\<close> stays \<open>start\<close> and the right-hand
  call repeats the call it comes from. \<open>left[:-1]\<close> is \<open>butlast left\<close>.
\<close>

fun rdp :: "numpy \<Rightarrow> nat \<Rightarrow> path \<Rightarrow> nat \<Rightarrow> nat \<Rightarrow> real \<Rightarrow> path option" where
  "rdp np 0 points start end eps = None"
| "rdp np (Suc depth) points start end eps =
     (if end \<le> start + 1 then Some [points ! start]
      else (case farthest
                   (\<lambda>i. perpendicular_distance np (points ! i) (points ! start) (points ! end))
                   start end of
              (max_dist, max_idx) \<Rightarrow>
                if max_dist > eps
                then (case rdp np depth points start max_idx eps of
                        None \<Rightarrow> None
                      | Some left \<Rightarrow>
                          (case rdp np depth points max_idx end eps of
                             None \<Rightarrow> None
                           | Some right \<Rightarrow> Some (butlast left @ right)))
                else Some [points ! start, points ! end]))"

definition ramer_douglas_pecker :: "numpy \<Rightarrow> nat \<Rightarrow> path \<Rightarrow> real \<Rightarrow> path option" where
  "ramer_douglas_pecker np depth points epsilon =
     (if length points < 3 then Some points
      else rdp np depth points 0 (length points - 1) epsilon)"





section \<open>Moving average (\<open>smooth_path\<close>, clean\_smooth.py)\<close>

text \<open>
  A Python slice \<open>xs[start:stop]\<close>: a negative bound counts from the end, and both bounds
  are clamped to the list.
\<close>

definition py_slice :: "'a list \<Rightarrow> int \<Rightarrow> int \<Rightarrow> 'a list" where
  "py_slice xs start stop =
     (let n = int (length xs);
          lo = (if start < 0 then max (start + n) 0 else min start n);
          hi = (if stop < 0 then max (stop + n) 0 else min stop n)
      in take (nat (hi - lo)) (drop (nat lo) xs))"

text \<open>\<open>int(r)\<close> of a float truncates towards zero; \<open>np.mean\<close> of a list of numbers.\<close>

definition py_int :: "real \<Rightarrow> int" where
  "py_int r = (if 0 \<le> r then \<lfloor>r\<rfloor> else \<lceil>r\<rceil>)"

definition mean :: "real list \<Rightarrow> real" where
  "mean xs = sum_list xs / real (length xs)"

text \<open>
  The body of the loop \<open>for i in range(len(points))\<close>: the point appended for index \<open>i\<close>,
  none when the window is empty. \<open>window // 2\<close> is floor division.
\<close>

definition window_average :: "path \<Rightarrow> int \<Rightarrow> nat \<Rightarrow> path" where
  "window_average points window i =
     (let start = max 0 (int i - window div 2);
          end = min (int (length points)) (int i + window div 2 + 1);
          window_points = py_slice points start end
      in if length window_points > 0
         then [(of_int (py_int (mean (map fst window_points))),
                of_int (py_int (mean (map snd window_points))))]
         else [])"

definition smooth_path :: "path \<Rightarrow> int \<Rightarrow> path" where
  "smooth_path points window =
     (if int (length points) < window then points
      else concat (map (window_average points window) [0..<length points]))"

section \<open>Local polynomial smoothing (\<open>savitzky_golay_smooth\<close>, very\_smooth.py)\<close>



section \<open>Curve fitting (\<open>curve_fitting_smooth\<close>, very\_smooth.py; \<open>fit_smooth_curve\<close>, smooth\_bspline.py)\<close>



section \<open>Properties of decimation\<close>

lemma decimate_kept_after:
  "simplified \<noteq> [] \<Longrightarrow>
   decimate tolerance simplified ps = simplified @ kept_after tolerance (last simplified) ps"
  by (induction ps arbitrary: simplified) auto

lemma kept_after_idem:
  "kept_after tolerance l (kept_after tolerance l ps) = kept_after tolerance l ps"
  by (induction ps arbitrary: l) auto

lemma simplify_path_points_Cons:
  "simplify_path_points (p # ps) tolerance =
     (if length ps < 2 then p # ps else p # kept_after tolerance p ps)"
  by (simp add: simplify_path_points_def decimate_kept_after)

lemma sqrt_ge_iff: "0 \<le> t \<Longrightarrow> (t \<le> sqrt d) = (t\<^sup>2 \<le> d)"
  by (metis abs_of_nonneg real_sqrt_abs real_sqrt_le_iff)





text \<open>
  C5. Distance decimation is idempotent: decimating the result of a decimation with the
  same tolerance changes nothing, for every path and every tolerance.
\<close>

theorem simplify_path_points_idempotent:
  "simplify_path_points (simplify_path_points points tolerance) tolerance =
   simplify_path_points points tolerance"
proof (cases points)
  case Nil
  then show ?thesis by (simp add: simplify_path_points_def)
next
  case (Cons p ps)
  show ?thesis
  proof (cases "length ps < 2")
    case True
    with Cons show ?thesis by (simp add: simplify_path_points_Cons)
  next
    case False
    with Cons show ?thesis
      by (simp add: simplify_path_points_Cons kept_after_idem)
  qed
qed



section \<open>Properties of Chaikin smoothing\<close>

lemma chaikin_step_iterate:
  "ps \<noteq> [] \<Longrightarrow>
   (chaikin_step ^^ n) ps \<noteq> [] \<and> hd ((chaikin_step ^^ n) ps) = hd ps \<and>
   last ((chaikin_step ^^ n) ps) = last ps"
  by (induction n) (simp_all add: chaikin_step_def)

text \<open>
  C6. For every (non-empty) path and every number of iterations, the output of Chaikin
  smoothing starts with the first point of the input and ends with its last point.
\<close>

theorem chaikin_smooth_endpoints:
  "points \<noteq> [] \<Longrightarrow>
   chaikin_smooth points k \<noteq> [] \<and>
   hd (chaikin_smooth points k) = hd points \<and>
   last (chaikin_smooth points k) = last points"
  by (simp add: chaikin_smooth_def chaikin_step_iterate)

theorem chaikin_smooth_endpoints_witness:
  "[(0,0), (4,0), (4,4), (0,4)] \<noteq> ([] :: path) \<and>
   length (chaikin_smooth [(0,0), (4,0), (4,4), (0,4)] 2) = 16 \<and>
   hd (chaikin_smooth [(0,0), (4,0), (4,4), (0,4)] 2) = (0,0) \<and>
   last (chaikin_smooth [(0,0), (4,0), (4,4), (0,4)] 2) = (0,4)"
  using chaikin_smooth_endpoints [of "[(0,0), (4,0), (4,4), (0,4)]" 2]
  by (simp add: chaikin_smooth_def chaikin_step_def numeral_2_eq_2)

section \<open>Properties of the tracer\<close>

lemma fold_visit_spec:
  "\<exists>pushed. fold (visit skeleton) ns (visited, stack) = (visited \<union> set pushed, pushed @ stack) \<and>
     distinct pushed \<and> set pushed \<inter> visited = {} \<and> set pushed \<subseteq> set ns \<inter> foreground skeleton"
proof (induction ns arbitrary: visited stack)
  case Nil
  show ?case by simp
next
  case (Cons n ns)
  from visit_cases [of skeleton n visited stack] show ?case
  proof
    assume a: "visit skeleton n (visited, stack) = (visited, stack) \<and> (n \<in> visited \<or> n \<notin> foreground skeleton)"
    from Cons.IH [of visited stack] obtain pushed where
      "fold (visit skeleton) ns (visited, stack) = (visited \<union> set pushed, pushed @ stack)"
      "distinct pushed" "set pushed \<inter> visited = {}" "set pushed \<subseteq> set ns \<inter> foreground skeleton"
      by blast
    with a show ?thesis by (intro exI [of _ pushed]) auto
  next
    assume a: "visit skeleton n (visited, stack) = (insert n visited, n # stack) \<and> n \<notin> visited \<and> n \<in> foreground skeleton"
    from Cons.IH [of "insert n visited" "n # stack"] obtain pushed where
      p: "fold (visit skeleton) ns (insert n visited, n # stack) = (insert n visited \<union> set pushed, pushed @ n # stack)"
      "distinct pushed" "set pushed \<inter> insert n visited = {}" "set pushed \<subseteq> set ns \<inter> foreground skeleton"
      by blast
    with a show ?thesis by (intro exI [of _ "pushed @ [n]"]) auto
  qed
qed

lemma flood_spec:
  "distinct stack \<Longrightarrow> set stack \<subseteq> visited \<Longrightarrow>
   \<exists>new. snd (flood skeleton visited stack points) = points @ new \<and> distinct new \<and>
     set new = (fst (flood skeleton visited stack points) - visited) \<union> set stack \<and>
     visited \<subseteq> fst (flood skeleton visited stack points) \<and>
     fst (flood skeleton visited stack points) - visited \<subseteq> foreground skeleton"
proof (induction skeleton visited stack points rule: flood.induct)
  case (1 skeleton visited points)
  show ?case by simp
next
  case (2 skeleton visited c stack points)
  obtain pushed where
    f: "fold (visit skeleton) (neighbours c) (visited, stack) = (visited \<union> set pushed, pushed @ stack)"
    and d: "distinct pushed" and i: "set pushed \<inter> visited = {}"
    and s: "set pushed \<subseteq> set (neighbours c) \<inter> foreground skeleton"
    using fold_visit_spec [of skeleton "neighbours c" visited stack] by blast
  let ?V = "visited \<union> set pushed" and ?S = "pushed @ stack"
  let ?R = "flood skeleton ?V ?S (points @ [c])"
  have ds: "distinct ?S" using d i "2.prems" by auto
  have ss: "set ?S \<subseteq> ?V" using "2.prems" by auto
  from "2.IH" [OF f [symmetric] ds ss] obtain new where
    n: "snd ?R = (points @ [c]) @ new" "distinct new" "set new = (fst ?R - ?V) \<union> set ?S"
       "?V \<subseteq> fst ?R" "fst ?R - ?V \<subseteq> foreground skeleton"
    by blast
  have r: "flood skeleton visited (c # stack) points = ?R" using f by simp
  have c: "c \<in> visited" "c \<notin> set stack" using "2.prems" by auto
  have "snd ?R = points @ (c # new)" using n(1) by simp
  moreover have "distinct (c # new)" using n(2,3) c i by auto
  moreover have "set (c # new) = (fst ?R - visited) \<union> set (c # stack)"
    using n(3,4) c i "2.prems" by auto
  moreover have "visited \<subseteq> fst ?R" using n(4) by auto
  moreover have "fst ?R - visited \<subseteq> foreground skeleton" using n(5) s by auto
  ultimately show ?case unfolding r by blast
qed

lemma linked_snoc:
  "linked (pts @ [c]) = (linked pts \<and> (pts = [] \<or> (\<exists>p\<in>set pts. adjacent p c)))"
proof -
  have a: "(\<forall>k<Suc (length pts). P k) = ((\<forall>k<length pts. P k) \<and> P (length pts))" for P
    by (auto simp: less_Suc_eq)
  have "(\<exists>j<length pts. adjacent ((pts @ [c]) ! j) c) = (\<exists>j<length pts. adjacent (pts ! j) c)"
    by (auto simp: nth_append)
  also have "\<dots> = (\<exists>p\<in>set pts. adjacent p c)"
    by (metis in_set_conv_nth)
  finally have b: "(\<exists>j<length pts. adjacent ((pts @ [c]) ! j) c) = (\<exists>p\<in>set pts. adjacent p c)" .
  have c: "(\<forall>k<length pts. 0 < k \<longrightarrow> (\<exists>j<k. adjacent ((pts @ [c]) ! j) ((pts @ [c]) ! k))) = linked pts"
  proof -
    have "adjacent ((pts @ [c]) ! j) ((pts @ [c]) ! k) = adjacent (pts ! j) (pts ! k)"
      if "j < k" "k < length pts" for j k
      using that by (simp add: nth_append)
    then show ?thesis unfolding linked_def by blast
  qed
  have "linked (pts @ [c]) =
      ((\<forall>k<length pts. 0 < k \<longrightarrow> (\<exists>j<k. adjacent ((pts @ [c]) ! j) ((pts @ [c]) ! k))) \<and>
       (0 < length pts \<longrightarrow> (\<exists>j<length pts. adjacent ((pts @ [c]) ! j) ((pts @ [c]) ! length pts))))"
    by (simp only: linked_def length_append_singleton a)
  also have "\<dots> = (linked pts \<and> (0 < length pts \<longrightarrow> (\<exists>p\<in>set pts. adjacent p c)))"
    by (simp only: c b nth_append_length)
  also have "\<dots> = (linked pts \<and> (pts = [] \<or> (\<exists>p\<in>set pts. adjacent p c)))"
    by auto
  finally show ?thesis .
qed

lemma set_neighbours:
  "set (neighbours c) =
     {(fst c - 1, snd c - 1), (fst c, snd c - 1), (fst c + 1, snd c - 1),
      (fst c - 1, snd c), (fst c + 1, snd c),
      (fst c - 1, snd c + 1), (fst c, snd c + 1), (fst c + 1, snd c + 1)}"
  by (simp add: neighbours_def insert_commute)

lemma adjacent_neighbours: "n \<in> set (neighbours c) \<Longrightarrow> adjacent c n"
  unfolding set_neighbours by (auto simp: adjacent_def)

lemma flood_linked:
  "linked points \<Longrightarrow>
   (points = [] \<and> length stack \<le> 1) \<or> (\<forall>s\<in>set stack. \<exists>p\<in>set points. adjacent p s) \<Longrightarrow>
   linked (snd (flood skeleton visited stack points))"
proof (induction skeleton visited stack points rule: flood.induct)
  case (1 skeleton visited points)
  then show ?case by simp
next
  case (2 skeleton visited c stack points)
  obtain pushed where
    f: "fold (visit skeleton) (neighbours c) (visited, stack) = (visited \<union> set pushed, pushed @ stack)"
    and s: "set pushed \<subseteq> set (neighbours c) \<inter> foreground skeleton"
    using fold_visit_spec [of skeleton "neighbours c" visited stack] by blast
  have l: "linked (points @ [c])" using "2.prems" by (auto simp: linked_snoc)
  have "\<exists>p\<in>set (points @ [c]). adjacent p s" if "s \<in> set (pushed @ stack)" for s
  proof (cases "s \<in> set pushed")
    case True
    with s have "adjacent c s" by (auto intro: adjacent_neighbours)
    then show ?thesis by auto
  next
    case False
    with that have m: "s \<in> set stack" by simp
    from "2.prems"(2) show ?thesis
    proof
      assume "points = [] \<and> length (c # stack) \<le> 1"
      with m show ?thesis by simp
    next
      assume "\<forall>s\<in>set (c # stack). \<exists>p\<in>set points. adjacent p s"
      with m show ?thesis by auto
    qed
  qed
  then have "(points @ [c] = [] \<and> length (pushed @ stack) \<le> 1) \<or>
     (\<forall>s\<in>set (pushed @ stack). \<exists>p\<in>set (points @ [c]). adjacent p s)" by blast
  from "2.IH" [OF f [symmetric] l this] show ?case using f by simp
qed
lemma trace_from_ok:
  assumes b: "in_bounds skeleton c" and ok: "traced_ok keep skeleton s"
  shows "traced_ok keep skeleton (trace_from keep skeleton c s) \<and>
         fst s \<subseteq> fst (trace_from keep skeleton c s) \<and>
         (c \<in> foreground skeleton \<longrightarrow> c \<in> fst (trace_from keep skeleton c s))"
proof (cases s)
  case (Pair visited contours)
  show ?thesis
  proof (cases "value_at skeleton (snd c) (fst c) = 0 \<or> c \<in> visited")
    case True
    then have "trace_from keep skeleton c s = s" using Pair by (simp add: trace_from_def)
    moreover have "c \<in> foreground skeleton \<longrightarrow> c \<in> fst s"
      using True Pair by (auto simp: foreground_def)
    ultimately show ?thesis using ok by simp
  next
    case False
    let ?R = "flood skeleton (insert c visited) [c] []"
    have cf: "c \<in> foreground skeleton" using False b
      by (cases c) (auto simp: foreground_def in_bounds_def)
    from flood_spec [of "[c]" "insert c visited" skeleton "[]"] obtain new where
      n: "snd ?R = new" "distinct new" "set new = (fst ?R - insert c visited) \<union> {c}"
         "insert c visited \<subseteq> fst ?R" "fst ?R - insert c visited \<subseteq> foreground skeleton"
      by auto
    have l: "linked new"
      using flood_linked [of "[]" "[c]" skeleton "insert c visited"] n(1)
      by (simp add: linked_def)
    have t: "trace_from keep skeleton c s =
        (fst ?R, if keep (length new) then contours @ [new] else contours)"
      using False Pair n(1) by (simp add: trace_from_def case_prod_beta del: flood.simps)
    have sn: "set new = fst ?R - visited" using n(3,4) False by auto
    have ne: "new \<noteq> []" using n(3) by auto
    have o: "visited \<subseteq> foreground skeleton" "distinct (concat contours)"
      "set (concat contours) \<subseteq> visited" "[] \<notin> set contours" "\<forall>p\<in>set contours. linked p"
      "(\<forall>n>0. keep n) \<longrightarrow> set (concat contours) = visited"
      using ok Pair by (auto simp: traced_ok_def)
    have 1: "fst ?R \<subseteq> foreground skeleton" using n(5) o(1) cf by auto
    have 2: "distinct (concat (contours @ [new]))" using o(2,3) n(2) sn by auto
    have 3: "set (concat (contours @ [new])) \<subseteq> fst ?R" using o(3) sn n(4) by auto
    have 4: "(\<forall>n>0. keep n) \<longrightarrow> keep (length new) \<and> set (concat (contours @ [new])) = fst ?R"
      using o(6) sn n(4) ne by auto
    have 5: "[] \<notin> set (contours @ [new])" "\<forall>p\<in>set (contours @ [new]). linked p"
      using o(4,5) l ne by auto
    have 6: "distinct (concat contours)" "set (concat contours) \<subseteq> fst ?R" "[] \<notin> set contours"
      "\<forall>p\<in>set contours. linked p" "(\<forall>n>0. keep n) \<longrightarrow> keep (length new)"
      using o n(4) 4 by auto
    have "traced_ok keep skeleton (fst ?R, if keep (length new) then contours @ [new] else contours)"
    proof (cases "keep (length new)")
      case True
      then show ?thesis unfolding traced_ok_def using 1 2 3 4 5 by simp
    next
      case False
      then show ?thesis unfolding traced_ok_def using 1 6 by auto
    qed
    moreover have "fst s \<subseteq> fst ?R" using n(4) Pair by auto
    moreover have "c \<in> fst ?R" using n(4) by auto
    ultimately show ?thesis unfolding t by simp
  qed
qed

lemma fold_trace_from_ok:
  "\<forall>c\<in>set cells. in_bounds skeleton c \<Longrightarrow> traced_ok keep skeleton s \<Longrightarrow>
   traced_ok keep skeleton (fold (trace_from keep skeleton) cells s) \<and>
   fst s \<subseteq> fst (fold (trace_from keep skeleton) cells s) \<and>
   set cells \<inter> foreground skeleton \<subseteq> fst (fold (trace_from keep skeleton) cells s)"
proof (induction cells arbitrary: s)
  case Nil
  then show ?case by simp
next
  case (Cons c cells)
  have b: "in_bounds skeleton c" using Cons.prems(1) by simp
  note t = trace_from_ok [OF b Cons.prems(2)]
  have "\<forall>c\<in>set cells. in_bounds skeleton c" using Cons.prems(1) by simp
  from Cons.IH [OF this conjunct1 [OF t]] t show ?case by auto
qed

lemma set_scan_order: "set (scan_order skeleton) = {c. in_bounds skeleton c}"
proof (rule set_eqI)
  fix c :: pixel
  obtain a b where c: "c = (a, b)" by (cases c)
  have "(a, b) \<in> set (scan_order skeleton) \<longleftrightarrow>
        (\<exists>y<fst (shape skeleton). \<exists>x<snd (shape skeleton). a = int x \<and> b = int y)"
    by (auto simp: scan_order_def image_iff)
  also have "\<dots> \<longleftrightarrow> in_bounds skeleton (a, b)"
  proof
    assume "\<exists>y<fst (shape skeleton). \<exists>x<snd (shape skeleton). a = int x \<and> b = int y"
    then show "in_bounds skeleton (a, b)" by (auto simp: in_bounds_def)
  next
    assume "in_bounds skeleton (a, b)"
    then have "nat b < fst (shape skeleton)" "nat a < snd (shape skeleton)"
      "a = int (nat a)" "b = int (nat b)"
      by (auto simp: in_bounds_def)
    then show "\<exists>y<fst (shape skeleton). \<exists>x<snd (shape skeleton). a = int x \<and> b = int y"
      by blast
  qed
  finally show "c \<in> set (scan_order skeleton) \<longleftrightarrow> c \<in> {c. in_bounds skeleton c}"
    using c by simp
qed

lemma trace_components_ok:
  "traced_ok keep skeleton (fold (trace_from keep skeleton) (scan_order skeleton) ({}, [])) \<and>
   foreground skeleton \<subseteq> fst (fold (trace_from keep skeleton) (scan_order skeleton) ({}, []))"
proof -
  have 1: "\<forall>c\<in>set (scan_order skeleton). in_bounds skeleton c" by (simp add: set_scan_order)
  have 2: "traced_ok keep skeleton ({}, [])" by (simp add: traced_ok_def)
  have 3: "foreground skeleton \<subseteq> set (scan_order skeleton)"
    by (auto simp: set_scan_order foreground_def in_bounds_def)
  from fold_trace_from_ok [OF 1 2] 3 show ?thesis by blast
qed

lemma trace_components_partition:
  assumes "\<forall>n>0. keep n"
  shows "distinct (concat (trace_components keep skeleton)) \<and>
         set (concat (trace_components keep skeleton)) = foreground skeleton \<and>
         [] \<notin> set (trace_components keep skeleton)"
proof -
  let ?s = "fold (trace_from keep skeleton) (scan_order skeleton) ({}, [])"
  have ok: "traced_ok keep skeleton ?s" and f: "foreground skeleton \<subseteq> fst ?s"
    using trace_components_ok [of keep skeleton] by simp_all
  have "set (concat (snd ?s)) = fst ?s" "fst ?s \<subseteq> foreground skeleton"
    "distinct (concat (snd ?s))" "[] \<notin> set (snd ?s)"
    using ok assms unfolding traced_ok_def by blast+
  with f show ?thesis unfolding trace_components_def by blast
qed

lemma trace_components_linked:
  "p \<in> set (trace_components keep skeleton) \<Longrightarrow> linked p"
proof -
  assume p: "p \<in> set (trace_components keep skeleton)"
  let ?s = "fold (trace_from keep skeleton) (scan_order skeleton) ({}, [])"
  have "traced_ok keep skeleton ?s"
    using trace_components_ok [of keep skeleton] by simp
  then have "\<forall>p\<in>set (snd ?s). linked p" unfolding traced_ok_def by blast
  with p show ?thesis unfolding trace_components_def by blast
qed

lemma trace_two_dots:
  "trace_components keep two_dots = (if keep 1 then [[(0,0)], [(2,0)]] else [])"
  by (simp add: trace_components_def scan_order_def trace_from_def two_dots_def visit_def
      neighbours_def upt_rec)

lemma trace_caret:
  "trace_components keep caret_mask =
     (if keep 7 then [[(3,0), (4,1), (5,2), (6,3), (2,1), (1,2), (0,3)]] else [])"
  by (simp add: trace_components_def scan_order_def trace_from_def caret_mask_def visit_def
      neighbours_def upt_rec) (simp add: eval_nat_numeral)

lemma trace_components_empty:
  assumes "foreground skeleton = {}"
  shows "trace_components keep skeleton = []"
proof -
  let ?s = "fold (trace_from keep skeleton) (scan_order skeleton) ({}, [])"
  have "traced_ok keep skeleton ?s"
    using trace_components_ok [of keep skeleton] by simp
  then have "set (concat (snd ?s)) \<subseteq> foreground skeleton" "[] \<notin> set (snd ?s)"
    unfolding traced_ok_def by blast+
  with assms have "\<forall>p\<in>set (snd ?s). set p = {}" "[] \<notin> set (snd ?s)" by auto
  then have "snd ?s = []" by (cases "snd ?s") auto
  then show ?thesis unfolding trace_components_def by simp
qed

text \<open>
  C1. When the minimum length is at most 1, so that no component is discarded, the paths of
  \<open>remove_noise_from_skeleton\<close> hold the foreground pixels and nothing else, no path is
  empty and no pixel occurs twice in their concatenation: every foreground pixel is in
  exactly one path, exactly once. A mask without foreground gives no path, for every
  minimum length.
\<close>

theorem remove_noise_from_skeleton_partition:
  "(min_length \<le> 1 \<longrightarrow>
      distinct (concat (remove_noise_from_skeleton skeleton min_length)) \<and>
      set (concat (remove_noise_from_skeleton skeleton min_length)) = foreground skeleton \<and>
      [] \<notin> set (remove_noise_from_skeleton skeleton min_length)) \<and>
   (foreground skeleton = {} \<longrightarrow> remove_noise_from_skeleton skeleton min_length = [])"
proof -
  have "\<forall>n>0. min_length \<le> int n" if "min_length \<le> 1"
    using that by auto
  then show ?thesis
    unfolding remove_noise_from_skeleton_def
    using trace_components_partition [of "\<lambda>n. min_length \<le> int n" skeleton]
      trace_components_empty [of skeleton "\<lambda>n. min_length \<le> int n"]
    by blast
qed

lemma foreground_two_dots: "foreground two_dots = {(0,0), (2,0)}"
  by (auto simp: foreground_def two_dots_def split: if_splits)

theorem remove_noise_from_skeleton_partition_witness:
  "(1::int) \<le> 1 \<and> remove_noise_from_skeleton two_dots 1 = [[(0,0)], [(2,0)]] \<and>
   distinct (concat (remove_noise_from_skeleton two_dots 1)) \<and>
   set (concat (remove_noise_from_skeleton two_dots 1)) = foreground two_dots \<and>
   foreground blank = {} \<and> remove_noise_from_skeleton blank 100 = []"
  using remove_noise_from_skeleton_partition [of 1 two_dots]
    remove_noise_from_skeleton_partition [of 100 blank]
  by (simp add: remove_noise_from_skeleton_def trace_two_dots foreground_def blank_def)

text \<open>
  C2 as stated: consecutive points of a traced path are 8-adjacent. The points are in the
  order in which the stack is popped; on the caret the fill walks down the right arm to
  \<open>(6,3)\<close> and then pops \<open>(2,1)\<close>, the top of the left arm.
\<close>

theorem trace_all_contours_consecutive_counterexample:
  "trace_all_contours caret_mask = [[(3,0), (4,1), (5,2), (6,3), (2,1), (1,2), (0,3)]] \<and>
   \<not> adjacent ([(3,0), (4,1), (5,2), (6,3), (2,1), (1,2), (0,3)] ! 3)
                ([(3,0), (4,1), (5,2), (6,3), (2,1), (1,2), (0,3)] ! Suc 3)"
  by (simp add: trace_all_contours_def trace_caret adjacent_def)

text \<open>
  C2 amended: in every path of \<open>trace_all_contours\<close>, every point but the first is
  8-adjacent to some point before it in the same path.
\<close>

theorem trace_all_contours_linked:
  "p \<in> set (trace_all_contours skeleton) \<Longrightarrow> 0 < k \<Longrightarrow> k < length p \<Longrightarrow>
   \<exists>j<k. adjacent (p ! j) (p ! k)"
  using trace_components_linked [of p "\<lambda>n. n > 5" skeleton]
  unfolding trace_all_contours_def linked_def by blast

theorem trace_all_contours_linked_witness:
  "[(3,0), (4,1), (5,2), (6,3), (2,1), (1,2), (0,3)] \<in> set (trace_all_contours caret_mask) \<and>
   (0::nat) < 4 \<and> 4 < length [(3,0), (4,1), (5,2), (6,3), (2,1), (1,2), (0,3) :: pixel] \<and>
   (\<exists>j<4. adjacent ([(3,0), (4,1), (5,2), (6,3), (2,1), (1,2), (0,3)] ! j)
                    ([(3,0), (4,1), (5,2), (6,3), (2,1), (1,2), (0,3)] ! 4))"
  using trace_all_contours_linked [of "[(3,0), (4,1), (5,2), (6,3), (2,1), (1,2), (0,3)]" caret_mask 4]
  by (simp add: trace_all_contours_def trace_caret)

section \<open>Properties of endpoint pairing\<close>

lemma consider_endpoint_ok:
  "closest_ok endpoints used max_dist i s \<Longrightarrow> i < j \<Longrightarrow> j < length endpoints \<Longrightarrow>
   closest_ok endpoints used max_dist i (consider_endpoint endpoints used i j s)"
  by (cases s) (auto simp: closest_ok_def consider_endpoint_def)

lemma fold_consider_endpoint_ok:
  "closest_ok endpoints used max_dist i s \<Longrightarrow> \<forall>j\<in>set js. i < j \<and> j < length endpoints \<Longrightarrow>
   closest_ok endpoints used max_dist i (fold (consider_endpoint endpoints used i) js s)"
  by (induction js arbitrary: s) (simp_all add: consider_endpoint_ok)

lemma pair_endpoint_ok:
  assumes "pairs_ok endpoints max_dist s idxs"
  shows "\<exists>idxs'. pairs_ok endpoints max_dist (pair_endpoint endpoints max_dist i s) idxs'"
proof (cases s)
  case (Pair connections used)
  let ?r = "fold (consider_endpoint endpoints used i) [i + 1..<length endpoints] (max_dist, - 1)"
  have "closest_ok endpoints used max_dist i (max_dist, - 1)" by (simp add: closest_ok_def)
  then have c: "closest_ok endpoints used max_dist i ?r"
    by (rule fold_consider_endpoint_ok) simp
  show ?thesis
  proof (cases "i \<in> used \<or> snd ?r = - 1")
    case True
    then have "pair_endpoint endpoints max_dist i s = s"
      using Pair by (auto simp: pair_endpoint_def case_prod_beta)
    with assms show ?thesis by auto
  next
    case False
    let ?c = "nat (snd ?r)"
    have p: "pair_endpoint endpoints max_dist i s =
        (connections @ [(endpoints ! i, endpoints ! ?c)], insert ?c (insert i used))"
      using False Pair by (simp add: pair_endpoint_def case_prod_beta)
    from c False have k: "i < ?c" "?c < length endpoints" "?c \<notin> used"
      "euclid (endpoints ! i) (endpoints ! ?c) < max_dist"
      by (auto simp: closest_ok_def)
    have f: "flat (idxs @ [(i, ?c)]) = flat idxs @ [i, ?c]" by (simp add: flat_def)
    have "pairs_ok endpoints max_dist
        (connections @ [(endpoints ! i, endpoints ! ?c)], insert ?c (insert i used)) (idxs @ [(i, ?c)])"
      using assms Pair False k unfolding pairs_ok_def f by auto
    then show ?thesis unfolding p by blast
  qed
qed

lemma fold_pair_endpoint_ok:
  "pairs_ok endpoints max_dist s idxs \<Longrightarrow>
   \<exists>idxs'. pairs_ok endpoints max_dist (fold (pair_endpoint endpoints max_dist) is s) idxs'"
proof (induction "is" arbitrary: s idxs)
  case Nil
  then show ?case by auto
next
  case (Cons i "is")
  from pair_endpoint_ok [OF Cons.prems, of i] obtain idxs' where
    "pairs_ok endpoints max_dist (pair_endpoint endpoints max_dist i s) idxs'" by blast
  from Cons.IH [OF this] show ?case by simp
qed

lemma sqrt_less_iff: "0 \<le> t \<Longrightarrow> (sqrt d < t) = (d < t\<^sup>2)"
  using sqrt_ge_iff [of t d] by auto

lemma find_close_example:
  "find_close_endpoints [(0,0), (50,50), (3,4), (53,54), (200,0)] 30 =
     [((0,0), (3,4)), ((50,50), (53,54))]"
  by (simp add: find_close_endpoints_def pair_endpoint_def consider_endpoint_def upt_rec
      euclid_def sqrt_less_iff)

text \<open>
  C7. The connections of \<open>find_close_endpoints\<close> are the endpoints at a list of index pairs
  in which no index occurs twice, so each endpoint is in at most one pair; the two
  endpoints of every pair are closer than the maximum gap; with fewer than two endpoints
  there is no connection.
\<close>

theorem find_close_endpoints_pairs:
  "\<exists>idxs. find_close_endpoints endpoints max_dist =
            map (\<lambda>(i, j). (endpoints ! i, endpoints ! j)) idxs \<and>
     distinct (concat (map (\<lambda>(i, j). [i, j]) idxs)) \<and>
     (\<forall>(i, j)\<in>set idxs. i < j \<and> j < length endpoints \<and>
         euclid (endpoints ! i) (endpoints ! j) < max_dist) \<and>
     (\<forall>(a, b)\<in>set (find_close_endpoints endpoints max_dist). euclid a b < max_dist) \<and>
     (length endpoints < 2 \<longrightarrow> find_close_endpoints endpoints max_dist = [])"
proof (cases "length endpoints < 2")
  case True
  then have "find_close_endpoints endpoints max_dist = []"
    by (simp add: find_close_endpoints_def)
  then show ?thesis by (intro exI [of _ "[]"]) simp
next
  case False
  have "pairs_ok endpoints max_dist ([], {}) []" by (simp add: pairs_ok_def flat_def)
  from fold_pair_endpoint_ok [OF this, of "[0..<length endpoints]"] obtain idxs where
    "pairs_ok endpoints max_dist
       (fold (pair_endpoint endpoints max_dist) [0..<length endpoints] ([], {})) idxs"
    by blast
  with False have o: "find_close_endpoints endpoints max_dist =
      map (\<lambda>(i, j). (endpoints ! i, endpoints ! j)) idxs"
    "distinct (flat idxs)"
    "\<forall>(i, j)\<in>set idxs. i < j \<and> j < length endpoints \<and>
         euclid (endpoints ! i) (endpoints ! j) < max_dist"
    by (simp_all add: pairs_ok_def find_close_endpoints_def)
  from o(1,3) have "\<forall>(a, b)\<in>set (find_close_endpoints endpoints max_dist). euclid a b < max_dist"
    by auto
  with o False show ?thesis unfolding flat_def by (intro exI [of _ idxs]) simp
qed

theorem find_close_endpoints_pairs_witness:
  "find_close_endpoints [(0,0), (50,50), (3,4), (53,54), (200,0)] 30 =
     map (\<lambda>(i, j). ([(0,0), (50,50), (3,4), (53,54), (200,0)] ! i,
                     [(0,0), (50,50), (3,4), (53,54), (200,0)] ! j)) [(0, 2), (1, 3)] \<and>
   distinct (concat (map (\<lambda>(i, j). [i, j]) [(0, 2), (1, 3 :: nat)])) \<and>
   euclid (0,0) (3,4) < 30 \<and> euclid (50,50) (53,54) < 30 \<and>
   length [(7, 7) :: point] < 2 \<and> find_close_endpoints [(7, 7)] 30 = []"
  using find_close_endpoints_pairs [of "[(0,0), (50,50), (3,4), (53,54), (200,0)]" 30]
    find_close_endpoints_pairs [of "[(7, 7)]" 30]
  by (auto simp: find_close_example)

section \<open>Properties of the serializer\<close>

lemma ai_commands_append: "ai_commands (xs @ ys) = ai_commands xs @ ai_commands ys"
  by (induction xs rule: ai_commands.induct) simp_all

lemma svg_commands_append: "svg_commands (xs @ ys) = svg_commands xs @ svg_commands ys"
  by (induction xs rule: svg_commands.induct) simp_all

lemma ai_commands_concat: "ai_commands (concat xss) = concat (map ai_commands xss)"
  by (induction xss) (simp_all add: ai_commands_append)

lemma svg_commands_concat: "svg_commands (concat xss) = concat (map svg_commands xss)"
  by (induction xss) (simp_all add: svg_commands_append)

lemma map_from_one: "map (\<lambda>j. f (xs ! j)) [1..<length xs] = map f (tl xs)"
  by (rule nth_equalityI) (simp_all add: nth_tl)

lemma ai_commands_linetos:
  "ai_commands (map (\<lambda>j. Lineto (f j) (g j)) js) = map (\<lambda>j. Line_to (f j) (g j)) js"
  by (induction js) simp_all

lemma ai_commands_ai_path:
  "ai_commands (ai_path height (i, path)) = path_commands (\<lambda>y. real_of_int height - y) path"
proof (cases "length path < 2")
  case True
  then show ?thesis by (simp add: ai_path_def path_commands_def)
next
  case False
  have "map (\<lambda>j. Line_to (fst (path ! j)) (real_of_int height - snd (path ! j))) [1..<length path] =
      map (\<lambda>p. Line_to (fst p) (real_of_int height - snd p)) (tl path)"
    by (rule map_from_one [of "\<lambda>p. Line_to (fst p) (real_of_int height - snd p)"])
  moreover have "path ! 0 = hd path" using False by (cases path) simp_all
  ultimately show ?thesis using False
    by (simp add: ai_path_def path_commands_def ai_commands_append ai_commands_linetos)
qed

lemma svg_commands_svg_path:
  "svg_commands (svg_path (i, path)) = path_commands (\<lambda>y. y) path"
proof (cases "length path < 2")
  case True
  then show ?thesis by (simp add: svg_path_def path_commands_def)
next
  case False
  have "map (\<lambda>j. Line_to (fst (path ! j)) (snd (path ! j))) [1..<length path] =
      map (\<lambda>p. Line_to (fst p) (snd p)) (tl path)"
    by (rule map_from_one [of "\<lambda>p. Line_to (fst p) (snd p)"])
  moreover have "path ! 0 = hd path" using False by (cases path) simp_all
  ultimately show ?thesis using False
    by (simp add: svg_path_def path_commands_def comp_def)
qed

lemma map_enumerate_snd: "map (\<lambda>ip. f (snd ip)) (enumerate n xs) = map f xs"
  by (induction xs arbitrary: n) simp_all

text \<open>
  C8. For every path collection and canvas size, the geometry commands of \<open>output_ai\<close> are,
  path by path and in order, a move to the first point and a line to every later point,
  with \<open>height - y\<close> as vertical coordinate, and those of \<open>output_svg\<close> are the same with
  the vertical coordinate unchanged; a path with fewer than two points gives no command.
\<close>

theorem serializer_commands:
  "ai_commands (output_ai paths output_path width height) =
     concat (map (path_commands (\<lambda>y. real_of_int height - y)) paths) \<and>
   svg_commands (fst (output_svg paths output_path width height)) =
     concat (map (path_commands (\<lambda>y. y)) paths)"
proof -
  have "ai_commands (ai_path height ip) = path_commands (\<lambda>y. real_of_int height - y) (snd ip)"
    for ip :: "nat \<times> path"
    by (cases ip) (simp add: ai_commands_ai_path)
  then have a: "map (\<lambda>ip. ai_commands (ai_path height ip)) (enumerate 0 paths) =
      map (path_commands (\<lambda>y. real_of_int height - y)) paths"
    using map_enumerate_snd [of "path_commands (\<lambda>y. real_of_int height - y)" 0 paths]
    by simp
  have "svg_commands (svg_path ip) = path_commands (\<lambda>y. y) (snd ip)" for ip :: "nat \<times> path"
    by (cases ip) (simp add: svg_commands_svg_path)
  then have s: "map (\<lambda>ip. svg_commands (svg_path ip)) (enumerate 0 paths) =
      map (path_commands (\<lambda>y. y)) paths"
    using map_enumerate_snd [of "path_commands (\<lambda>y. y)" 0 paths]
    by simp
  show ?thesis
    by (simp add: output_ai_def output_svg_def ai_commands_append svg_commands_append
        ai_commands_concat svg_commands_concat comp_def a s Let_def)
qed

theorem serializer_commands_witness:
  "ai_commands (output_ai [[(1,2), (3,4), (5,6)], [(9,9)], [(0,0), (7,1)]] ''out.ai'' 20 10) =
     [Move_to 1 8, Line_to 3 6, Line_to 5 4, Move_to 0 10, Line_to 7 9] \<and>
   svg_commands (fst (output_svg [[(1,2), (3,4), (5,6)], [(9,9)], [(0,0), (7,1)]] ''out.svg'' 20 10)) =
     [Move_to 1 2, Line_to 3 4, Line_to 5 6, Move_to 0 0, Line_to 7 1]"
  using serializer_commands [of "[[(1,2), (3,4), (5,6)], [(9,9)], [(0,0), (7,1)]]" _ 20 10]
  by (simp add: path_commands_def)

section \<open>Properties of the merger\<close>

lemma join_other_ok:
  assumes j: "j < length contours"
    and f: "flags_ok (length contours) used groups grp"
    and g: "grp \<noteq> []"
    and r: "join_other max_gap contours j (joined contours grp, used, changed) = Inr (current', used', changed')"
  shows "\<exists>grp'. flags_ok (length contours) used' groups grp' \<and> grp' \<noteq> [] \<and>
           current' = joined contours grp' \<and> set grp \<subseteq> set grp'"
proof (cases "used ! j")
  case True
  with r have "current' = joined contours grp" "used' = used"
    by (simp_all add: join_other_def)
  with f g show ?thesis by blast
next
  case False
  let ?d1 = "euclid (last (joined contours grp)) (hd (contours ! j))"
  let ?d2 = "euclid (hd (joined contours grp)) (last (contours ! j))"
  from f j False have nj: "j \<notin> set (concat groups)" "j \<notin> set grp"
    by (auto simp: flags_ok_def)
  show ?thesis
  proof (cases "?d1 < max_gap \<or> ?d2 < max_gap")
    case no: False
    with r False have "current' = joined contours grp" "used' = used"
      by (simp_all add: join_other_def Let_def split: if_splits)
    with f g show ?thesis by blast
  next
    case yes: True
    with r False have u: "used' = used[j := True]"
      and c: "current' = (if ?d1 < ?d2 then joined contours grp @ contours ! j
                           else contours ! j @ joined contours grp)"
      by (simp_all add: join_other_def Let_def split: if_splits)
    let ?g = "if ?d1 < ?d2 then grp @ [j] else j # grp"
    have 1: "current' = joined contours ?g" using c by (simp add: joined_def)
    have 2: "set ?g = insert j (set grp)" by auto
    have 3: "distinct (concat groups @ ?g)" using f nj by (auto simp: flags_ok_def)
    have 4: "length used' = length contours" using f u by (simp add: flags_ok_def)
    have 5: "used' ! k \<longleftrightarrow> k \<in> set (concat groups) \<union> set ?g" if "k < length contours" for k
    proof (cases "k = j")
      case True
      with u f j show ?thesis by (simp add: flags_ok_def 2)
    next
      case False
      with u f that show ?thesis by (simp add: flags_ok_def 2)
    qed
    have 6: "set (concat groups) \<union> set ?g \<subseteq> {0..<length contours}"
      using f j unfolding 2 by (auto simp: flags_ok_def)
    have "flags_ok (length contours) used' groups ?g"
      unfolding flags_ok_def using 3 4 5 6 by blast
    moreover have "?g \<noteq> []" by simp
    moreover have "set grp \<subseteq> set ?g" unfolding 2 by blast
    ultimately show ?thesis using 1 by blast
  qed
qed

lemma fold_join_other_ok:
  "\<forall>j\<in>set js. j < length contours \<Longrightarrow>
   flags_ok (length contours) used groups grp \<Longrightarrow> grp \<noteq> [] \<Longrightarrow>
   fold_result (join_other max_gap contours) js (joined contours grp, used, changed) =
     Inr (current', used', changed') \<Longrightarrow>
   \<exists>grp'. flags_ok (length contours) used' groups grp' \<and> grp' \<noteq> [] \<and>
      current' = joined contours grp' \<and> set grp \<subseteq> set grp'"
proof (induction js arbitrary: used grp changed)
  case Nil
  then show ?case by auto
next
  case (Cons j js)
  from Cons.prems(4) obtain c1 u1 ch1 where
    s: "join_other max_gap contours j (joined contours grp, used, changed) = Inr (c1, u1, ch1)"
    and r: "fold_result (join_other max_gap contours) js (c1, u1, ch1) = Inr (current', used', changed')"
    by (auto split: sum.splits)
  have j: "j < length contours" using Cons.prems(1) by simp
  from join_other_ok [OF j Cons.prems(2,3) s] obtain g1 where
    g1: "flags_ok (length contours) u1 groups g1" "g1 \<noteq> []" "c1 = joined contours g1"
      "set grp \<subseteq> set g1"
    by blast
  have js: "\<forall>j\<in>set js. j < length contours" using Cons.prems(1) by simp
  from Cons.IH [OF js g1(1,2) r [unfolded g1(3)]] obtain g2 where
    "flags_ok (length contours) used' groups g2" "g2 \<noteq> []" "current' = joined contours g2"
    "set g1 \<subseteq> set g2"
    by blast
  with g1(4) show ?case by blast
qed
lemma grow_from_ok:
  assumes i: "i < length contours"
    and ok: "round_ok contours s groups"
    and r: "grow_from max_gap contours i s = Inr s'"
  shows "\<exists>groups'. round_ok contours s' groups' \<and>
           insert i (set (concat groups)) \<subseteq> set (concat groups')"
proof -
  obtain result used changed where s: "s = (result, used, changed)" by (cases s) auto
  from ok s have o: "result = map (joined contours) groups" "[] \<notin> set groups"
    "flags_ok (length contours) used groups []"
    by (simp_all add: round_ok_def)
  show ?thesis
  proof (cases "used ! i")
    case True
    with r s have "s' = s" by (simp add: grow_from_def)
    moreover from True o(3) i have "i \<in> set (concat groups)" by (auto simp: flags_ok_def)
    ultimately show ?thesis using ok by blast
  next
    case False
    with r s obtain current used' changed' where
      f: "fold_result (join_other max_gap contours) [i + 1..<length contours]
            (contours ! i, used[i := True], changed) = Inr (current, used', changed')"
      and s': "s' = (result @ [current], used', changed')"
      by (auto simp: grow_from_def split: sum.splits)
    from False o(3) i have ni: "i \<notin> set (concat groups)" by (auto simp: flags_ok_def)
    have u: "used[i := True] ! k \<longleftrightarrow> k \<in> set (concat groups) \<union> set [i]"
      if "k < length contours" for k
    proof (cases "k = i")
      case True
      with o(3) i show ?thesis by (simp add: flags_ok_def)
    next
      case False
      with o(3) that show ?thesis by (simp add: flags_ok_def)
    qed
    have "length (used[i := True]) = length contours" "distinct (concat groups @ [i])"
      "set (concat groups) \<union> set [i] \<subseteq> {0..<length contours}"
      using o(3) i ni by (auto simp: flags_ok_def)
    with u have fl: "flags_ok (length contours) (used[i := True]) groups [i]"
      unfolding flags_ok_def by blast
    have j: "contours ! i = joined contours [i]" by (simp add: joined_def)
    have js: "\<forall>j\<in>set [i + 1..<length contours]. j < length contours" by simp
    from fold_join_other_ok [OF js fl _ f [unfolded j]] obtain g where
      g: "flags_ok (length contours) used' groups g" "g \<noteq> []" "current = joined contours g"
        "set [i] \<subseteq> set g"
      by blast
    have "flags_ok (length contours) used' (groups @ [g]) []"
      using g(1) by (simp add: flags_ok_def)
    then have "round_ok contours s' (groups @ [g])"
      using s' o(1,2) g(2,3) by (simp add: round_ok_def)
    moreover have "insert i (set (concat groups)) \<subseteq> set (concat (groups @ [g]))"
      using g(4) by auto
    ultimately show ?thesis by blast
  qed
qed

lemma fold_grow_from_ok:
  "\<forall>i\<in>set is. i < length contours \<Longrightarrow> round_ok contours s groups \<Longrightarrow>
   fold_result (grow_from max_gap contours) is s = Inr s' \<Longrightarrow>
   \<exists>groups'. round_ok contours s' groups' \<and>
      set is \<union> set (concat groups) \<subseteq> set (concat groups')"
proof (induction "is" arbitrary: s groups)
  case Nil
  then show ?case by auto
next
  case (Cons i "is")
  from Cons.prems(3) obtain s1 where
    s1: "grow_from max_gap contours i s = Inr s1"
    and r: "fold_result (grow_from max_gap contours) is s1 = Inr s'"
    by (auto split: sum.splits)
  have i: "i < length contours" using Cons.prems(1) by simp
  from grow_from_ok [OF i Cons.prems(2) s1] obtain g1 where
    g1: "round_ok contours s1 g1" "insert i (set (concat groups)) \<subseteq> set (concat g1)"
    by blast
  have "\<forall>i\<in>set is. i < length contours" using Cons.prems(1) by simp
  from Cons.IH [OF this g1(1) r] obtain g2 where
    g2: "round_ok contours s' g2" "set is \<union> set (concat g1) \<subseteq> set (concat g2)"
    by blast
  have "set (i # is) = insert i (set is)" by simp
  with g1(2) g2(2) have "set (i # is) \<union> set (concat groups) \<subseteq> set (concat g2)"
    by blast
  with g2(1) show ?case by blast
qed

lemma merge_round_regrouped:
  assumes "merge_round max_gap contours = Inr (result, changed)"
  shows "regrouped contours result"
proof -
  from assms obtain used where
    f: "fold_result (grow_from max_gap contours) [0..<length contours]
          ([], replicate (length contours) False, False) = Inr (result, used, changed)"
    by (auto simp: merge_round_def split: sum.splits)
  have ok: "round_ok contours ([], replicate (length contours) False, False) []"
    by (simp add: round_ok_def flags_ok_def)
  have "\<forall>i\<in>set [0..<length contours]. i < length contours" by simp
  from fold_grow_from_ok [OF this ok f] obtain groups where
    g: "round_ok contours (result, used, changed) groups"
      "set [0..<length contours] \<union> set (concat []) \<subseteq> set (concat groups)"
    by blast
  from g(1) have d: "distinct (concat groups)" "set (concat groups) \<subseteq> {0..<length contours}"
    "[] \<notin> set groups" "result = map (joined contours) groups"
    by (simp_all add: round_ok_def flags_ok_def)
  from g(2) d(2) have "set (concat groups) = set [0..<length contours]" by auto
  with d(1) have "mset (concat groups) = mset [0..<length contours]"
    by (metis set_eq_iff_mset_eq_distinct distinct_upt)
  with d(3,4) show ?thesis unfolding regrouped_def joined_def by blast
qed

lemma mset_concat_map_cong:
  assumes "mset xs = mset ys"
  shows "mset (concat (map f xs)) = mset (concat (map f ys))"
proof -
  have "mset (concat (map f zs)) = sum_mset (image_mset (\<lambda>z. mset (f z)) (mset zs))" for zs
    by (induction zs) simp_all
  with assms show ?thesis by simp
qed

lemma concat_map_concat:
  "concat (map f (concat xss)) = concat (map (\<lambda>xs. concat (map f xs)) xss)"
  by (induction xss) simp_all

lemma regrouped_refl: "regrouped paths paths"
proof -
  let ?groups = "map (\<lambda>i. [i]) [0..<length paths]"
  have "concat ?groups = [0..<length paths]" by (induction "length paths") (simp_all add: concat_map_singleton)
  moreover have "[] \<notin> set ?groups" by auto
  moreover have "paths = map (\<lambda>grp. concat (map ((!) paths) grp)) ?groups"
    by (simp add: comp_def map_nth)
  ultimately show ?thesis unfolding regrouped_def by (intro exI [of _ ?groups]) simp
qed

lemma regrouped_trans:
  assumes "regrouped a b" and "regrouped b c"
  shows "regrouped a c"
proof -
  from assms(1) obtain g1 where
    g1: "mset (concat g1) = mset [0..<length a]" "[] \<notin> set g1"
      "b = map (\<lambda>grp. concat (map ((!) a) grp)) g1"
    unfolding regrouped_def by blast
  from assms(2) obtain g2 where
    g2: "mset (concat g2) = mset [0..<length b]" "[] \<notin> set g2"
      "c = map (\<lambda>grp. concat (map ((!) b) grp)) g2"
    unfolding regrouped_def by blast
  have lb: "length b = length g1" using g1(3) by simp
  have "set (concat g2) = set [0..<length b]" using g2(1) by (metis set_mset_mset)
  then have in2: "k < length g1" if "h \<in> set g2" "k \<in> set h" for h k
    using that lb by auto
  let ?g = "map (\<lambda>h. concat (map ((!) g1) h)) g2"
  have bk: "b ! k = concat (map ((!) a) (g1 ! k))" if "k < length g1" for k
    using that g1(3) by simp
  have "concat (map ((!) b) h) = concat (map ((!) a) (concat (map ((!) g1) h)))"
    if "h \<in> set g2" for h
  proof -
    have "map ((!) b) h = map (\<lambda>k. concat (map ((!) a) (g1 ! k))) h"
      using in2 [OF that] bk by (intro map_cong) auto
    then have "concat (map ((!) b) h) = concat (map (\<lambda>k. concat (map ((!) a) (g1 ! k))) h)"
      by (rule arg_cong)
    also have "\<dots> = concat (map ((!) a) (concat (map ((!) g1) h)))"
      by (simp add: concat_map_concat comp_def)
    finally show ?thesis .
  qed
  then have 1: "c = map (\<lambda>grp. concat (map ((!) a) grp)) ?g"
    unfolding g2(3) by (simp add: comp_def)
  have "concat ?g = concat (map ((!) g1) (concat g2))"
    by (simp add: concat_map_concat)
  then have "mset (concat ?g) = mset (concat (map ((!) g1) [0..<length g1]))"
    using mset_concat_map_cong [OF g2(1), of "(!) g1"] lb by simp
  then have 2: "mset (concat ?g) = mset [0..<length a]"
    using g1(1) by (simp add: map_nth)
  have 3: "[] \<notin> set ?g"
  proof
    assume "[] \<in> set ?g"
    then obtain h where h: "h \<in> set g2" "concat (map ((!) g1) h) = []" by auto
    from h(1) g2(2) have "h \<noteq> []" by metis
    then obtain k ks where hk: "h = k # ks" by (cases h) auto
    with h(1) in2 have "k < length g1" by auto
    then have "g1 ! k \<in> set g1" by simp
    with g1(2) have "g1 ! k \<noteq> []" by metis
    with h(2) hk show False by simp
  qed
  from 1 2 3 show ?thesis unfolding regrouped_def by blast
qed

lemma connect_loop_regrouped:
  "regrouped paths contours \<Longrightarrow>
   connect_loop max_gap max_iterations contours changed iterations = Inr out \<Longrightarrow>
   regrouped paths out"
proof (induction max_gap max_iterations contours changed iterations rule: connect_loop.induct)
  case (1 max_gap max_iterations contours changed iterations)
  show ?case
  proof (cases "changed \<and> iterations < max_iterations")
    case False
    with "1.prems" show ?thesis by simp
  next
    case True
    with "1.prems"(2) obtain result changed' where
      m: "merge_round max_gap contours = Inr (result, changed')"
      and c: "connect_loop max_gap max_iterations result changed' (iterations + 1) = Inr out"
      by (auto split: sum.splits)
    have "regrouped paths result"
      using "1.prems"(1) merge_round_regrouped [OF m] by (rule regrouped_trans)
    from "1.IH" [OF True m refl this c] show ?thesis .
  qed
qed

lemma join_other_total:
  assumes "current \<noteq> []" "j < length contours" "\<forall>p\<in>set contours. p \<noteq> []"
  shows "\<exists>current' used' changed'.
           join_other max_gap contours j (current, used, changed) = Inr (current', used', changed') \<and>
           current' \<noteq> []"
proof -
  have "contours ! j \<noteq> []" using assms(2,3) by simp
  with assms(1) show ?thesis by (auto simp: join_other_def Let_def)
qed

lemma fold_join_other_total:
  "current \<noteq> [] \<Longrightarrow> \<forall>j\<in>set js. j < length contours \<Longrightarrow> \<forall>p\<in>set contours. p \<noteq> [] \<Longrightarrow>
   \<exists>current' used' changed'.
      fold_result (join_other max_gap contours) js (current, used, changed) =
        Inr (current', used', changed') \<and> current' \<noteq> []"
proof (induction js arbitrary: current used changed)
  case Nil
  then show ?case by simp
next
  case (Cons j js)
  have "j < length contours" using Cons.prems(2) by simp
  from join_other_total [OF Cons.prems(1) this Cons.prems(3), of max_gap used changed]
  obtain c1 u1 ch1 where
    s: "join_other max_gap contours j (current, used, changed) = Inr (c1, u1, ch1)" "c1 \<noteq> []"
    by blast
  have "\<forall>j\<in>set js. j < length contours" using Cons.prems(2) by simp
  from Cons.IH [OF s(2) this Cons.prems(3), of u1 ch1] s(1) show ?case by simp
qed

lemma grow_from_total:
  assumes "\<forall>p\<in>set result. p \<noteq> []" "i < length contours" "\<forall>p\<in>set contours. p \<noteq> []"
  shows "\<exists>result' used' changed'.
           grow_from max_gap contours i (result, used, changed) = Inr (result', used', changed') \<and>
           (\<forall>p\<in>set result'. p \<noteq> [])"
proof (cases "used ! i")
  case True
  with assms(1) show ?thesis by (simp add: grow_from_def)
next
  case False
  have "contours ! i \<noteq> []" using assms(2,3) by simp
  from fold_join_other_total [OF this _ assms(3), of "[i + 1..<length contours]" max_gap
      "used[i := True]" changed]
  obtain c u ch where
    "fold_result (join_other max_gap contours) [i + 1..<length contours]
       (contours ! i, used[i := True], changed) = Inr (c, u, ch)" "c \<noteq> []"
    by auto
  with False assms(1) show ?thesis by (simp add: grow_from_def)
qed

lemma fold_grow_from_total:
  "\<forall>p\<in>set result. p \<noteq> [] \<Longrightarrow> \<forall>i\<in>set is. i < length contours \<Longrightarrow>
   \<forall>p\<in>set contours. p \<noteq> [] \<Longrightarrow>
   \<exists>result' used' changed'.
      fold_result (grow_from max_gap contours) is (result, used, changed) =
        Inr (result', used', changed') \<and> (\<forall>p\<in>set result'. p \<noteq> [])"
proof (induction "is" arbitrary: result used changed)
  case Nil
  then show ?case by simp
next
  case (Cons i "is")
  have "i < length contours" using Cons.prems(2) by simp
  from grow_from_total [OF Cons.prems(1) this Cons.prems(3), of max_gap used changed]
  obtain r1 u1 ch1 where
    s: "grow_from max_gap contours i (result, used, changed) = Inr (r1, u1, ch1)"
      "\<forall>p\<in>set r1. p \<noteq> []"
    by blast
  have "\<forall>i\<in>set is. i < length contours" using Cons.prems(2) by simp
  from Cons.IH [OF s(2) this Cons.prems(3), of u1 ch1] s(1) show ?case by simp
qed

lemma merge_round_total:
  assumes "\<forall>p\<in>set contours. p \<noteq> []"
  shows "\<exists>result changed. merge_round max_gap contours = Inr (result, changed) \<and>
           (\<forall>p\<in>set result. p \<noteq> [])"
proof -
  from fold_grow_from_total [of "[]" "[0..<length contours]" contours max_gap
      "replicate (length contours) False" False] assms
  obtain r u ch where
    "fold_result (grow_from max_gap contours) [0..<length contours]
       ([], replicate (length contours) False, False) = Inr (r, u, ch)" "\<forall>p\<in>set r. p \<noteq> []"
    by auto
  then show ?thesis by (simp add: merge_round_def)
qed

lemma connect_loop_total:
  "\<forall>p\<in>set contours. p \<noteq> [] \<Longrightarrow>
   \<exists>out. connect_loop max_gap max_iterations contours changed iterations = Inr out"
proof (induction max_gap max_iterations contours changed iterations rule: connect_loop.induct)
  case (1 max_gap max_iterations contours changed iterations)
  show ?case
  proof (cases "changed \<and> iterations < max_iterations")
    case False
    then show ?thesis by (subst connect_loop.simps) auto
  next
    case True
    from merge_round_total [OF "1.prems", of max_gap] obtain result changed' where
      m: "merge_round max_gap contours = Inr (result, changed')" "\<forall>p\<in>set result. p \<noteq> []"
      by blast
    from "1.IH" [OF True m(1) refl m(2)] obtain out where
      "connect_loop max_gap max_iterations result changed' (iterations + 1) = Inr out"
      by blast
    with True m(1) show ?thesis by (subst connect_loop.simps) simp
  qed
qed

lemma euclid_commute: "euclid p q = euclid q p"
  by (simp add: euclid_def power2_commute)

lemma join_other_apart:
  assumes "apart max_gap paths" "\<forall>p\<in>set paths. p \<noteq> []"
    and "i < length paths" "j < length paths" "i \<noteq> j"
  shows "join_other max_gap paths j (paths ! i, used, changed) = Inr (paths ! i, used, changed)"
proof -
  have "max_gap \<le> euclid (last (paths ! i)) (hd (paths ! j))"
    "max_gap \<le> euclid (last (paths ! j)) (hd (paths ! i))"
    using assms unfolding apart_def by auto
  then have "\<not> euclid (last (paths ! i)) (hd (paths ! j)) < max_gap"
    "\<not> euclid (hd (paths ! i)) (last (paths ! j)) < max_gap"
    by (simp_all add: euclid_commute [of "hd (paths ! i)"])
  moreover have "paths ! i \<noteq> []" "paths ! j \<noteq> []" using assms by simp_all
  ultimately show ?thesis by (simp add: join_other_def Let_def)
qed

lemma fold_join_other_apart:
  assumes "apart max_gap paths" "\<forall>p\<in>set paths. p \<noteq> []" "i < length paths"
  shows "\<forall>j\<in>set js. j < length paths \<and> i \<noteq> j \<Longrightarrow>
     fold_result (join_other max_gap paths) js (paths ! i, used, changed) =
       Inr (paths ! i, used, changed)"
  by (induction js) (simp_all add: join_other_apart [OF assms])

lemma used_below_update: "k < n \<Longrightarrow> (used_below n k)[k := True] = used_below n (Suc k)"
  by (rule nth_equalityI) (auto simp: used_below_def nth_list_update less_Suc_eq)

lemma grow_from_apart:
  assumes "apart max_gap paths" "\<forall>p\<in>set paths. p \<noteq> []" "k < length paths"
  shows "grow_from max_gap paths k (take k paths, used_below (length paths) k, changed) =
     Inr (take (Suc k) paths, used_below (length paths) (Suc k), changed)"
proof -
  have "\<not> used_below (length paths) k ! k" using assms(3) by (simp add: used_below_def)
  moreover have "fold_result (join_other max_gap paths) [k + 1..<length paths]
      (paths ! k, used_below (length paths) (Suc k), changed) =
      Inr (paths ! k, used_below (length paths) (Suc k), changed)"
    by (rule fold_join_other_apart [OF assms]) auto
  ultimately show ?thesis
    using assms(3) by (simp add: grow_from_def used_below_update take_Suc_conv_app_nth)
qed

lemma fold_grow_from_apart:
  assumes "apart max_gap paths" "\<forall>p\<in>set paths. p \<noteq> []"
  shows "k \<le> length paths \<Longrightarrow>
     fold_result (grow_from max_gap paths) [k..<length paths]
       (take k paths, used_below (length paths) k, changed) =
     Inr (paths, used_below (length paths) (length paths), changed)"
proof (induction "length paths - k" arbitrary: k)
  case 0
  then show ?case by simp
next
  case (Suc d)
  then have k: "k < length paths" by simp
  have "d = length paths - Suc k" "Suc k \<le> length paths" using Suc by simp_all
  from Suc.hyps(1) [OF this] grow_from_apart [OF assms k, of changed] k
  show ?case by (simp add: upt_conv_Cons)
qed

lemma merge_round_all_apart:
  assumes "apart max_gap paths" "\<forall>p\<in>set paths. p \<noteq> []"
  shows "merge_round max_gap paths = Inr (paths, False)"
proof -
  have "used_below (length paths) 0 = replicate (length paths) False"
    by (rule nth_equalityI) (simp_all add: used_below_def)
  with fold_grow_from_apart [OF assms, of 0 False] show ?thesis
    by (simp add: merge_round_def)
qed

lemma merger_all_apart:
  assumes "apart max_gap paths" "\<forall>p\<in>set paths. p \<noteq> []"
  shows "merge_adjacent_paths paths max_gap = Inr paths \<and>
         connect_contours paths max_gap = Inr paths"
proof -
  note m = merge_round_all_apart [OF assms]
  have f: "connect_loop max_gap n paths False k = Inr paths" for n k
    by (subst connect_loop.simps) simp
  have "connect_loop max_gap (length paths) paths True 0 = Inr paths"
    by (subst connect_loop.simps) (simp add: m f)
  with m show ?thesis by (simp add: merge_adjacent_paths_def connect_contours_def)
qed

lemma strokes_apart:
  "\<forall>i<length [[(0,0), (100,0)], [(0,1), (100,1)], [(0,2), (100,2) :: point]].
     \<forall>j<length [[(0,0), (100,0)], [(0,1), (100,1)], [(0,2), (100,2) :: point]]. i \<noteq> j \<longrightarrow>
       5 \<le> euclid (last ([[(0,0), (100,0)], [(0,1), (100,1)], [(0,2), (100,2)]] ! i))
                    (hd ([[(0,0), (100,0)], [(0,1), (100,1)], [(0,2), (100,2)]] ! j))"
  by (auto simp: less_Suc_eq euclid_def sqrt_ge_iff)

lemma merge_example:
  "merge_adjacent_paths [[(0,0), (1,0)], [(50,50), (51,50)], [(2,0), (3,0)]] 5 =
     Inr [[(0,0), (1,0), (2,0), (3,0)], [(50,50), (51,50)]]"
  by (simp add: merge_adjacent_paths_def merge_round_def grow_from_def join_other_def upt_rec
      euclid_def sqrt_less_iff Let_def)

lemma connect_example:
  "connect_contours [[(0,0), (1,0)], [(50,50), (51,50)], [(2,0), (3,0)]] 5 =
     Inr [[(0,0), (1,0), (2,0), (3,0)], [(50,50), (51,50)]]"
  by (simp add: connect_contours_def merge_round_def grow_from_def join_other_def upt_rec
      euclid_def sqrt_less_iff Let_def)

text \<open>
  C10. Every result of \<open>merge_adjacent_paths\<close> and of \<open>connect_contours\<close> consists of
  concatenations of whole input paths, each input path occurring exactly once and with
  its points in their original order; both return a result when no input path is empty.
  Only the distance from the tail of one path to the head of another is ever compared:
  a collection of non-empty paths in which every such distance is at least the gap is
  returned as it is, however close the heads are to each other or the tails to each other.
\<close>

theorem merger_concatenates_paths:
  "(merge_adjacent_paths paths max_gap = Inr out \<longrightarrow> regrouped paths out) \<and>
   (connect_contours paths max_gap = Inr out \<longrightarrow> regrouped paths out) \<and>
   ((\<forall>p\<in>set paths. p \<noteq> []) \<longrightarrow>
      (\<exists>merged. merge_adjacent_paths paths max_gap = Inr merged) \<and>
      (\<exists>merged. connect_contours paths max_gap = Inr merged)) \<and>
   ((\<forall>p\<in>set paths. p \<noteq> []) \<and>
    (\<forall>i<length paths. \<forall>j<length paths. i \<noteq> j \<longrightarrow>
        max_gap \<le> euclid (last (paths ! i)) (hd (paths ! j))) \<longrightarrow>
      merge_adjacent_paths paths max_gap = Inr paths \<and>
      connect_contours paths max_gap = Inr paths)"
proof (intro conjI impI)
  assume "merge_adjacent_paths paths max_gap = Inr out"
  then show "regrouped paths out"
    by (auto simp: merge_adjacent_paths_def regrouped_refl merge_round_regrouped
        split: if_splits sum.splits)
next
  assume c: "connect_contours paths max_gap = Inr out"
  show "regrouped paths out"
  proof (cases "length paths < 2")
    case True
    with c show ?thesis by (simp add: connect_contours_def regrouped_refl)
  next
    case False
    with c have "connect_loop max_gap (length paths) paths True 0 = Inr out"
      by (simp add: connect_contours_def)
    with regrouped_refl show ?thesis by (rule connect_loop_regrouped)
  qed
next
  assume n: "\<forall>p\<in>set paths. p \<noteq> []"
  from merge_round_total [OF n, of max_gap]
  show "\<exists>merged. merge_adjacent_paths paths max_gap = Inr merged"
    by (auto simp: merge_adjacent_paths_def)
  from connect_loop_total [OF n, of max_gap "length paths" True 0]
  show "\<exists>merged. connect_contours paths max_gap = Inr merged"
    by (simp add: connect_contours_def)
next
  assume a: "(\<forall>p\<in>set paths. p \<noteq> []) \<and>
    (\<forall>i<length paths. \<forall>j<length paths. i \<noteq> j \<longrightarrow>
        max_gap \<le> euclid (last (paths ! i)) (hd (paths ! j)))"
  then have "apart max_gap paths" "\<forall>p\<in>set paths. p \<noteq> []"
    by (simp_all add: apart_def)
  from merger_all_apart [OF this]
  show "merge_adjacent_paths paths max_gap = Inr paths"
    and "connect_contours paths max_gap = Inr paths"
    by simp_all
qed

theorem merger_concatenates_paths_witness:
  "merge_adjacent_paths [[(0,0), (1,0)], [(50,50), (51,50)], [(2,0), (3,0)]] 5 =
     Inr [[(0,0), (1,0), (2,0), (3,0)], [(50,50), (51,50)]] \<and>
   connect_contours [[(0,0), (1,0)], [(50,50), (51,50)], [(2,0), (3,0)]] 5 =
     Inr [[(0,0), (1,0), (2,0), (3,0)], [(50,50), (51,50)]] \<and>
   regrouped [[(0,0), (1,0)], [(50,50), (51,50)], [(2,0), (3,0)]]
     [[(0,0), (1,0), (2,0), (3,0)], [(50,50), (51,50)]] \<and>
   euclid (hd [(0,0), (100,0)]) (hd [(0,1), (100,1)]) < 5 \<and>
   euclid (hd [(0,1), (100,1)]) (hd [(0,2), (100,2)]) < 5 \<and>
   euclid (last [(0,0), (100,0)]) (last [(0,1), (100,1)]) < 5 \<and>
   euclid (last [(0,1), (100,1)]) (last [(0,2), (100,2)]) < 5 \<and>
   5 \<le> euclid (last [(0,0), (100,0)]) (hd [(0,1), (100,1)]) \<and>
   5 \<le> euclid (last [(0,1), (100,1)]) (hd [(0,0), (100,0)]) \<and>
   merge_adjacent_paths [[(0,0), (100,0)], [(0,1), (100,1)], [(0,2), (100,2)]] 5 =
     Inr [[(0,0), (100,0)], [(0,1), (100,1)], [(0,2), (100,2)]] \<and>
   connect_contours [[(0,0), (100,0)], [(0,1), (100,1)], [(0,2), (100,2)]] 5 =
     Inr [[(0,0), (100,0)], [(0,1), (100,1)], [(0,2), (100,2)]]"
  using merger_concatenates_paths [of "[[(0,0), (1,0)], [(50,50), (51,50)], [(2,0), (3,0)]]" 5
      "[[(0,0), (1,0), (2,0), (3,0)], [(50,50), (51,50)]]"]
    merger_concatenates_paths [of "[[(0,0), (100,0)], [(0,1), (100,1)], [(0,2), (100,2)]]" 5]
    strokes_apart
  by (simp add: merge_example connect_example euclid_def sqrt_less_iff sqrt_ge_iff)

section \<open>Properties of Douglas-Peucker simplification\<close>

lemma farthest_single:
  "0 < d (Suc start) \<Longrightarrow> farthest d start (Suc (Suc start)) = (d (Suc start), Suc start)"
  by (simp add: farthest_def farther_def)

text \<open>
  C3. With \<open>epsilon = 0\<close>, Douglas-Peucker simplification is to return the path unchanged.
  \<open>ramer_douglas_pecker\<close> does not: of three points whose middle point is computed to be
  farther than \<open>epsilon \<ge> 0\<close> from the chord, it returns the middle point alone. The split
  calls \<open>rdp\<close> on two segments without interior points, where \<open>rdp\<close> returns
  \<open>[points[start]]\<close> and not both ends; \<open>left[:-1] + right\<close> then drops the first point,
  and the last point is in neither half.
\<close>

theorem ramer_douglas_pecker_three_points:
  "0 \<le> eps \<Longrightarrow> eps < perpendicular_distance np b a c \<Longrightarrow>
   ramer_douglas_pecker np (Suc (Suc depth)) [a, b, c] eps = Some [b] \<and>
   ramer_douglas_pecker np (Suc (Suc depth)) [a, b, c] eps \<noteq> Some [a, b, c]"
proof -
  assume e: "0 \<le> eps" "eps < perpendicular_distance np b a c"
  let ?d = "\<lambda>i. perpendicular_distance np ([a, b, c] ! i) ([a, b, c] ! 0) ([a, b, c] ! 2)"
  have "0 < ?d (Suc 0)" using e by simp
  then have f: "farthest ?d 0 (Suc (Suc 0)) = (?d (Suc 0), Suc 0)"
    by (rule farthest_single)
  have l: "rdp np (Suc depth) [a, b, c] 0 (Suc 0) eps = Some [a]"
    and r: "rdp np (Suc depth) [a, b, c] (Suc 0) (Suc (Suc 0)) eps = Some [b]"
    by simp_all
  have "rdp np (Suc (Suc depth)) [a, b, c] 0 (Suc (Suc 0)) eps = Some [b]"
    using e f l r by (simp add: numeral_2_eq_2 del: rdp.simps(2)) (simp add: numeral_2_eq_2 f)
  then show ?thesis
    by (simp add: ramer_douglas_pecker_def numeral_2_eq_2 del: rdp.simps)
qed

lemma perpendicular_distance_corner: "perpendicular_distance exact (2,2) (0,0) (4,0) = 2"
  by (simp add: perpendicular_distance_def exact_def)

theorem ramer_douglas_pecker_three_points_witness:
  "(0::real) \<le> 0 \<and> perpendicular_distance exact (2,2) (0,0) (4,0) = 2 \<and>
   ramer_douglas_pecker exact 1000 [(0,0), (2,2), (4,0)] 0 = Some [(2,2)] \<and>
   ramer_douglas_pecker exact 1000 [(0,0), (2,2), (4,0)] 0 \<noteq> Some [(0,0), (2,2), (4,0)]"
  using ramer_douglas_pecker_three_points [of 0 exact "(2,2)" "(0,0)" "(4,0)" 998]
  by (simp add: perpendicular_distance_corner)

section \<open>Short paths and failed fits\<close>

lemma smooth_path_example:
  "smooth_path [(0,0), (3,0), (3,3), (9,3), (9,9)] 3 = [(1,0), (2,1), (5,2), (7,5), (9,6)]"
  by (simp add: smooth_path_def window_average_def py_slice_def py_int_def mean_def upt_rec
      Let_def)




end
